theory Spec2Isabelle
  imports Complex_Main "HOL-Library.Signed_Division"
begin

section \<open>JavaScript strings and big integers\<close>

text \<open>
  The script \<^verbatim>\<open>holders-snapshot.js\<close> works on JavaScript strings and on \<^verbatim>\<open>BigInt\<close>
  values. A string is modelled as a \<^typ>\<open>string\<close>, each character standing for the code
  unit of the same number (U+0000 to U+00FF); the texts the script handles (decimal
  amounts, hexadecimal addresses, command-line flags) are of this kind. The string
  functions below are the JavaScript methods of the same name on such strings; lower-casing
  is that of the ASCII letters. A \<^verbatim>\<open>BigInt\<close> is an \<^typ>\<open>int\<close>, the \<^verbatim>\<open>decimals\<close> number is an
  \<^typ>\<open>int\<close> as well.
\<close>

definition isDigit :: "char \<Rightarrow> bool" where
  \<comment> \<open>the character class \<^verbatim>\<open>[0-9]\<close>\<close>
  "isDigit c = (c \<in> set ''0123456789'')"

definition digitChar :: "nat \<Rightarrow> char" where
  "digitChar n = ''0123456789'' ! n"

definition digitVal :: "char \<Rightarrow> nat" where
  "digitVal c = of_char c - 48"

fun natToString :: "nat \<Rightarrow> string" where
  "natToString n =
     (if n < 10 then [digitChar n] else natToString (n div 10) @ [digitChar (n mod 10)])"

declare natToString.simps [simp del]

definition toString :: "int \<Rightarrow> string" where
  \<comment> \<open>\<^verbatim>\<open>BigInt.prototype.toString()\<close>, radix 10\<close>
  "toString i = (if i < 0 then CHR ''-'' # natToString (nat (- i)) else natToString (nat i))"

definition padStart :: "string \<Rightarrow> int \<Rightarrow> char \<Rightarrow> string" where
  \<comment> \<open>\<^verbatim>\<open>s.padStart(n, c)\<close> for a one-character filler\<close>
  "padStart s n c = replicate (nat n - length s) c @ s"

definition padEnd :: "string \<Rightarrow> int \<Rightarrow> char \<Rightarrow> string" where
  \<comment> \<open>\<^verbatim>\<open>s.padEnd(n, c)\<close> for a one-character filler\<close>
  "padEnd s n c = s @ replicate (nat n - length s) c"

definition sliceIndex :: "string \<Rightarrow> int \<Rightarrow> nat" where
  \<comment> \<open>how \<^verbatim>\<open>slice\<close> reads an index: a negative one counts from the end, and the
      result is clamped to the string\<close>
  "sliceIndex s i =
     (let len = int (length s) in nat (if i < 0 then max (len + i) 0 else min i len))"

definition slice :: "string \<Rightarrow> int \<Rightarrow> int \<Rightarrow> string" where
  \<comment> \<open>\<^verbatim>\<open>s.slice(start, end)\<close>\<close>
  "slice s start end = take (sliceIndex s end - sliceIndex s start) (drop (sliceIndex s start) s)"

definition sliceFrom :: "string \<Rightarrow> int \<Rightarrow> string" where
  \<comment> \<open>\<^verbatim>\<open>s.slice(start)\<close>\<close>
  "sliceFrom s start = drop (sliceIndex s start) s"

definition stripTrailingZeros :: "string \<Rightarrow> string" where
  \<comment> \<open>\<^verbatim>\<open>s.replace(/0+$/, "")\<close>: the leftmost match of \<^verbatim>\<open>0+$\<close> is the whole final run
      of zeros\<close>
  "stripTrailingZeros s = rev (dropWhile (\<lambda>c. c = CHR ''0'') (rev s))"

definition isWhiteSpace :: "char \<Rightarrow> bool" where
  \<comment> \<open>what \<^verbatim>\<open>trim\<close> strips, the white space and line terminators of JavaScript, among
      the code units up to U+00FF: tab, line feed, vertical tab, form feed, carriage
      return, space and no-break space (U+00A0). The others (U+1680, U+2000 to U+200A,
      U+2028, U+2029, U+202F, U+205F, U+3000, U+FEFF) lie above U+00FF.\<close>
  "isWhiteSpace c =
     (c \<in> set [CHR 0x09, CHR 0x0A, CHR 0x0B, CHR 0x0C, CHR 0x0D, CHR 0x20, CHR 0xA0])"

definition trim :: "string \<Rightarrow> string" where
  \<comment> \<open>\<^verbatim>\<open>s.trim()\<close>\<close>
  "trim s = rev (dropWhile isWhiteSpace (rev (dropWhile isWhiteSpace s)))"

definition toLowerCaseChar :: "char \<Rightarrow> char" where
  "toLowerCaseChar c =
     (case map_of (zip ''ABCDEFGHIJKLMNOPQRSTUVWXYZ'' ''abcdefghijklmnopqrstuvwxyz'') c of
        Some l \<Rightarrow> l
      | None \<Rightarrow> c)"

definition toLowerCase :: "string \<Rightarrow> string" where
  \<comment> \<open>\<^verbatim>\<open>s.toLowerCase()\<close>\<close>
  "toLowerCase s = map toLowerCaseChar s"

definition startsWith :: "string \<Rightarrow> string \<Rightarrow> bool" where
  \<comment> \<open>\<^verbatim>\<open>s.startsWith(p)\<close>\<close>
  "startsWith s p = (take (length p) s = p)"

fun split :: "string \<Rightarrow> char \<Rightarrow> string list" where
  \<comment> \<open>\<^verbatim>\<open>s.split(c)\<close> for a one-character separator; the result is never empty\<close>
  "split [] c = [Nil]"
| "split (x # xs) c =
     (if x = c then [] # split xs c else (x # hd (split xs c)) # tl (split xs c))"

definition digitsValue :: "string \<Rightarrow> int" where
  "digitsValue s = foldl (\<lambda>acc c. 10 * acc + int (digitVal c)) 0 s"

definition BigInt :: "string \<Rightarrow> int option" where
  \<comment> \<open>\<^verbatim>\<open>BigInt(s)\<close> on the strings \<^verbatim>\<open>parseUnits\<close> builds, which hold decimal digits only:
      the number they spell, \<open>0n\<close> for the empty string. \<open>None\<close> stands for any
      other string, which \<^verbatim>\<open>parseUnits\<close> never passes (lemma \<open>parseUnits_no_syntax_error\<close>).\<close>
  "BigInt s = (if list_all isDigit s then Some (digitsValue s) else None)"

definition bigintDiv :: "int \<Rightarrow> int \<Rightarrow> int" where
  \<comment> \<open>\<^verbatim>\<open>a / b\<close> on BigInts rounds towards zero; the script divides only after
      checking that the divisor is not \<open>0n\<close>\<close>
  "bigintDiv a b = a sdiv b"

datatype error =
    InvalidAmount
  | PrecisionOverflow
  | BigIntSyntaxError
  | MissingCoinAddress
  | MissingArgumentValue string
  | UnknownArgument string
  | ExcludeWithoutAirdrop
  | HttpError
  | MalformedResponse
  | MalformedNode
  | NoEligibleHolders

section \<open>Unit converter\<close>

definition formatUnits :: "int \<Rightarrow> int \<Rightarrow> string" where
  "formatUnits raw decimals =
     (if decimals \<le> 0 then toString raw
      else
        let s = padStart (toString raw) (decimals + 1) CHR ''0'';
            integerPart = slice s 0 (- decimals);
            fractionalPart = stripTrailingZeros (sliceFrom s (- decimals))
        in if fractionalPart \<noteq> [] then integerPart @ ''.'' @ fractionalPart else integerPart)"

definition amountRegexTest :: "string \<Rightarrow> bool" where
  \<comment> \<open>\<^verbatim>\<open>/^[0-9]+(?:\.[0-9]+)?$/.test(text)\<close>. What follows the integer digits is the end
      of the text or a dot, so \<^verbatim>\<open>[0-9]+\<close> can only match the whole leading run of digits.\<close>
  "amountRegexTest text =
     (case dropWhile isDigit text of
        [] \<Rightarrow> takeWhile isDigit text \<noteq> []
      | c # fracDigits \<Rightarrow>
          takeWhile isDigit text \<noteq> [] \<and> c = CHR ''.'' \<and> fracDigits \<noteq> [] \<and> list_all isDigit fracDigits)"

definition parseUnits :: "string \<Rightarrow> int \<Rightarrow> error + int" where
  "parseUnits amount decimals =
     (let text = trim amount in
      if \<not> amountRegexTest text then Inl InvalidAmount
      else
        let parts = split text CHR ''.'';
            integerPart = hd parts;
            fractionPart = (case tl parts of [] \<Rightarrow> [] | f # _ \<Rightarrow> f)
        in if int (length fractionPart) > decimals then Inl PrecisionOverflow
           else
             let rawText =
                   integerPart @ (if decimals > 0 then padEnd fractionPart decimals CHR ''0'' else [])
             in case BigInt rawText of None \<Rightarrow> Inl BigIntSyntaxError | Some v \<Rightarrow> Inr v)"

section \<open>Command line\<close>

record cliArgs =
  coinAddress :: string
  airdropAmount :: "string option"
  excludedAddresses :: "string set"

definition addExcluded :: "string list \<Rightarrow> string set \<Rightarrow> string set" where
  \<comment> \<open>the loop over \<^verbatim>\<open>value.split(",")\<close>: every part is trimmed and lower-cased, and
      added unless it is empty\<close>
  "addExcluded parts excluded =
     foldl (\<lambda>acc address_text.
              let normalized = toLowerCase (trim address_text)
              in if normalized \<noteq> [] then insert normalized acc else acc)
       excluded parts"

fun parseFlags :: "string list \<Rightarrow> string option \<Rightarrow> string set \<Rightarrow> error + (string option \<times> string set)" where
  \<comment> \<open>the loop \<^verbatim>\<open>for (let i = 1; i < argv.length; i += 1)\<close> on the arguments from index
      \<open>i\<close> on; a flag consumes the argument after it\<close>
  "parseFlags [] airdrop excluded = Inr (airdrop, excluded)"
| "parseFlags (arg # rest) airdrop excluded =
     (if arg = ''--airdrop'' then
        (case rest of
           [] \<Rightarrow> Inl (MissingArgumentValue ''--airdrop'')
         | v # rest' \<Rightarrow>
             if v = [] \<or> startsWith v ''--'' then Inl (MissingArgumentValue ''--airdrop'')
             else parseFlags rest' (Some (trim v)) excluded)
      else if arg = ''--exclude'' then
        (case rest of
           [] \<Rightarrow> Inl (MissingArgumentValue ''--exclude'')
         | v # rest' \<Rightarrow>
             if v = [] \<or> startsWith v ''--'' then Inl (MissingArgumentValue ''--exclude'')
             else parseFlags rest' airdrop (addExcluded (split v CHR '','') excluded))
      else Inl (UnknownArgument arg))"

definition parseCliArgs :: "string list \<Rightarrow> error + cliArgs" where
  "parseCliArgs argv =
     (case argv of
        [] \<Rightarrow> Inl MissingCoinAddress
      | a # rest \<Rightarrow>
          let coin = trim a in
          if coin = [] \<or> startsWith coin ''--'' then Inl MissingCoinAddress
          else
            (case parseFlags rest None {} of
               Inl e \<Rightarrow> Inl e
             | Inr (airdrop, excluded) \<Rightarrow>
                 if excluded \<noteq> {} \<and> airdrop = None then Inl ExcludeWithoutAirdrop
                 else Inr \<lparr>coinAddress = coin, airdropAmount = airdrop,
                           excludedAddresses = excluded\<rparr>))"

section \<open>Pagination and aggregation\<close>

text \<open>
  A JavaScript \<^verbatim>\<open>Map\<close> keeps its entries in insertion order: it is an association list
  with one entry for each key. \<^verbatim>\<open>set\<close> replaces the value of a key that is present and
  appends a new entry otherwise.
\<close>

type_synonym ('k, 'v) jsMap = "('k \<times> 'v) list"

definition mapGet :: "('k, 'v) jsMap \<Rightarrow> 'k \<Rightarrow> 'v option" where
  "mapGet m k = map_of m k"

fun mapSet :: "('k, 'v) jsMap \<Rightarrow> 'k \<Rightarrow> 'v \<Rightarrow> ('k, 'v) jsMap" where
  "mapSet [] k v = [(k, v)]"
| "mapSet ((k', v') # m) k v = (if k' = k then (k, v) # m else (k', v') # mapSet m k v)"

text \<open>
  One node of a page. \<open>ownerAddress\<close> is \<^verbatim>\<open>node.owner.address.address\<close> and \<open>balance\<close> is
  \<^verbatim>\<open>BigInt(node.asMoveObject.contents.json.balance)\<close>; each is \<open>None\<close> when evaluating
  the expression throws (a missing object on the path, a text that is no integer).
\<close>

record node =
  ownerAddress :: "string option"
  balance :: "int option"

record pageInfo =
  hasNextPage :: bool
  endCursor :: "string option"

record connection =
  nodes :: "node list option"
  pageInfo :: "pageInfo option"

text \<open>
  What one call of \<^verbatim>\<open>postGraphQL\<close> gives: a failure of the request, or a payload, whose
  \<^verbatim>\<open>data.objects\<close> may be missing.
\<close>

datatype response = RequestFailed | Payload "connection option"

fun addNodes :: "node list \<Rightarrow> (string, int) jsMap \<Rightarrow> error + (string, int) jsMap" where
  \<comment> \<open>the loop \<^verbatim>\<open>for (const node of connection.nodes ?? [])\<close>\<close>
  "addNodes [] balances = Inr balances"
| "addNodes (n # ns) balances =
     (case ownerAddress n of
        None \<Rightarrow> Inl MalformedNode
      | Some a \<Rightarrow>
          (case balance n of
             None \<Rightarrow> Inl MalformedNode
           | Some rawBalance \<Rightarrow>
               addNodes ns
                 (mapSet balances a
                    ((case mapGet balances a of None \<Rightarrow> 0 | Some b \<Rightarrow> b) + rawBalance))))"

text \<open>
  The paging loop \<^verbatim>\<open>while (true)\<close>. The network is the list of the server's answers: the
  k-th element maps the cursor of the k-th request to its response. The loop has no
  result (\<open>None\<close>) when the answers run out before a page ends the paging: it is still
  waiting then.
\<close>

fun aggregate ::
  "(string option \<Rightarrow> response) list \<Rightarrow> string option \<Rightarrow> (string, int) jsMap \<Rightarrow>
     (error + (string, int) jsMap) option" where
  "aggregate [] cursor balances = None"
| "aggregate (fetch # later) cursor balances =
     (case fetch cursor of
        RequestFailed \<Rightarrow> Some (Inl HttpError)
      | Payload None \<Rightarrow> Some (Inl MalformedResponse)
      | Payload (Some conn) \<Rightarrow>
          (case addNodes (case nodes conn of None \<Rightarrow> [] | Some ns \<Rightarrow> ns) balances of
             Inl e \<Rightarrow> Some (Inl e)
           | Inr balances' \<Rightarrow>
               (case pageInfo conn of
                  None \<Rightarrow> Some (Inr balances')
                | Some info \<Rightarrow>
                    if \<not> hasNextPage info then Some (Inr balances')
                    else aggregate later (endCursor info) balances')))"

definition entry :: "string \<Rightarrow> int \<Rightarrow> node" where
  \<comment> \<open>a well-formed node\<close>
  "entry a b = \<lparr>ownerAddress = Some a, balance = Some b\<rparr>"

definition page :: "(string \<times> int) list \<Rightarrow> bool \<Rightarrow> string option \<Rightarrow> string option \<Rightarrow> response" where
  \<comment> \<open>the answer to any cursor: a page of well-formed nodes with its paging information\<close>
  "page entries hasNext next cursor =
     Payload (Some \<lparr>nodes = Some (map (\<lambda>(a, b). entry a b) entries),
                    pageInfo = Some \<lparr>hasNextPage = hasNext, endCursor = next\<rparr>\<rparr>)"

section \<open>Holder rows and allocation\<close>

record holderRow =
  address :: string
  rawBalance :: int

definition holderRows :: "(string, int) jsMap \<Rightarrow> holderRow list" where
  \<comment> \<open>\<^verbatim>\<open>Array.from(balances.entries()).map(...).sort(...)\<close>: the sort is stable and the
      comparator orders by descending balance\<close>
  "holderRows balances =
     sort_key (\<lambda>row. - rawBalance row) (map (\<lambda>(a, b). \<lparr>address = a, rawBalance = b\<rparr>) balances)"

definition eligibleRowsOf :: "holderRow list \<Rightarrow> string set \<Rightarrow> holderRow list" where
  "eligibleRowsOf rows excluded = filter (\<lambda>row. toLowerCase (address row) \<notin> excluded) rows"

definition eligibleTotalRawOf :: "holderRow list \<Rightarrow> string set \<Rightarrow> int" where
  "eligibleTotalRawOf rows excluded =
     foldl (\<lambda>acc row. acc + rawBalance row) 0 (eligibleRowsOf rows excluded)"

fun shareLoop ::
  "holderRow list \<Rightarrow> int \<Rightarrow> int \<Rightarrow> string set \<Rightarrow> (string, int) jsMap \<Rightarrow> int \<Rightarrow>
     (string, int) jsMap \<times> int" where
  \<comment> \<open>the loop \<^verbatim>\<open>for (const row of rows)\<close> on the state \<^verbatim>\<open>airdropRawByAddress\<close>,
      \<^verbatim>\<open>allocated\<close>\<close>
  "shareLoop [] totalAirdropRaw eligibleTotalRaw excluded byAddress allocated =
     (byAddress, allocated)"
| "shareLoop (row # rows) totalAirdropRaw eligibleTotalRaw excluded byAddress allocated =
     (if toLowerCase (address row) \<in> excluded then
        shareLoop rows totalAirdropRaw eligibleTotalRaw excluded
          (mapSet byAddress (address row) 0) allocated
      else
        let share = bigintDiv (totalAirdropRaw * rawBalance row) eligibleTotalRaw
        in shareLoop rows totalAirdropRaw eligibleTotalRaw excluded
             (mapSet byAddress (address row) share) (allocated + share))"

definition allocate :: "holderRow list \<Rightarrow> int \<Rightarrow> string set \<Rightarrow> error + (string, int) jsMap" where
  "allocate rows totalAirdropRaw excluded =
     (let eligibleRows = eligibleRowsOf rows excluded;
          eligibleTotalRaw = eligibleTotalRawOf rows excluded
      in if eligibleTotalRaw = 0 then Inl NoEligibleHolders
         else
           let (byAddress, allocated) =
                 shareLoop rows totalAirdropRaw eligibleTotalRaw excluded [] 0;
               remainder = totalAirdropRaw - allocated
           in if remainder > 0 \<and> length eligibleRows > 0 then
                let firstEligibleAddress = address (hd eligibleRows)
                in Inr (mapSet byAddress firstEligibleAddress
                          ((case mapGet byAddress firstEligibleAddress of None \<Rightarrow> 0 | Some v \<Rightarrow> v)
                           + remainder))
              else Inr byAddress)"

definition sumValues :: "(string, int) jsMap \<Rightarrow> int" where
  \<comment> \<open>the sum of the values of a map\<close>
  "sumValues m = sum_list (map snd m)"

section \<open>Notions used in the statements\<close>

definition shareOf :: "int \<Rightarrow> int \<Rightarrow> string set \<Rightarrow> holderRow \<Rightarrow> int" where
  \<comment> \<open>what the allocation loop stores for a row\<close>
  "shareOf totalRaw E excluded row =
     (if toLowerCase (address row) \<in> excluded then 0 else bigintDiv (totalRaw * rawBalance row) E)"

definition exampleRows :: "holderRow list" where
  \<comment> \<open>the rows of the allocation scenario\<close>
  "exampleRows = [\<lparr>address = ''A'', rawBalance = 100\<rparr>, \<lparr>address = ''B'', rawBalance = 100\<rparr>,
                  \<lparr>address = ''C'', rawBalance = 100\<rparr>]"

definition ownerTotal :: "string \<Rightarrow> (string \<times> int) list \<Rightarrow> int" where
  \<comment> \<open>the sum of the raw balances that a list of page entries holds for one owner\<close>
  "ownerTotal a entries = sum_list (map snd (filter (\<lambda>e. fst e = a) entries))"

definition balanceOr0 :: "(string, int) jsMap \<Rightarrow> string \<Rightarrow> int" where
  \<comment> \<open>\<^verbatim>\<open>balances.get(address) ?? 0n\<close>\<close>
  "balanceOr0 m a = (case mapGet m a of None \<Rightarrow> 0 | Some b \<Rightarrow> b)"

fun stripZerosSpec :: "string \<Rightarrow> string" where
  \<comment> \<open>stripping trailing zeros, in the words of the specification: the last character
      is removed as long as it is a zero\<close>
  "stripZerosSpec s = (if s \<noteq> [] \<and> last s = CHR ''0'' then stripZerosSpec (butlast s) else s)"

declare stripZerosSpec.simps [simp del]

definition toDisplaySpec :: "int \<Rightarrow> int \<Rightarrow> string" where
  \<comment> \<open>\<^verbatim>\<open>toDisplay\<close> in the words of the specification, to compare \<^verbatim>\<open>formatUnits\<close> with:
      pad on the left with zeros to at least \<open>decimals + 1\<close> digits, take all but the
      last \<open>decimals\<close> digits as the integer part and the last \<open>decimals\<close> digits as the
      fractional part, strip the trailing zeros of the latter, and join the two with a dot
      unless the fractional part has become empty\<close>
  "toDisplaySpec raw decimals =
     (if decimals \<le> 0 then toString raw
      else
        let d = nat decimals;
            digits = toString raw;
            padded = (if length digits < d + 1
                      then replicate (d + 1 - length digits) CHR ''0'' @ digits else digits);
            integerDigits = take (length padded - d) padded;
            fractionDigits = stripZerosSpec (drop (length padded - d) padded)
        in if fractionDigits = [] then integerDigits
           else integerDigits @ CHR ''.'' # fractionDigits)"

definition amountSyntax :: "string \<Rightarrow> bool" where
  \<comment> \<open>the pattern in the words of the specification: one or more digits, optionally
      followed by a dot and one or more digits\<close>
  "amountSyntax t =
     (\<exists>ip fp. ip \<noteq> [] \<and> list_all isDigit ip \<and> list_all isDigit fp \<and>
        (t = ip \<or> (fp \<noteq> [] \<and> t = ip @ CHR ''.'' # fp)))"

section \<open>Properties of the unit converter\<close>

subsection \<open>Digits and formatting\<close>

lemma lt10_cases: "(n::nat) < 10 \<Longrightarrow> n \<in> {0, 1, 2, 3, 4, 5, 6, 7, 8, 9}"
  by (simp, arith)

lemma digitVal_digitChar: "n < 10 \<Longrightarrow> digitVal (digitChar n) = n"
  using lt10_cases [of n] by (auto simp: digitVal_def digitChar_def)

lemma isDigit_digitChar: "n < 10 \<Longrightarrow> isDigit (digitChar n)"
  using lt10_cases [of n] by (auto simp: isDigit_def digitChar_def)

lemma dot_not_digit: "\<not> isDigit CHR ''.''"
  by (simp add: isDigit_def)

lemma zero_digit: "isDigit CHR ''0''"
  by (simp add: isDigit_def)

lemma digit_not_space: "isDigit c \<Longrightarrow> \<not> isWhiteSpace c"
  by (auto simp: isDigit_def isWhiteSpace_def)

lemma dot_not_space: "\<not> isWhiteSpace CHR ''.''"
  by (simp add: isWhiteSpace_def)

lemma digits_no_dot: "list_all isDigit s \<Longrightarrow> CHR ''.'' \<notin> set s"
  using dot_not_digit by (auto simp: list_all_iff)

lemma natToString_digits: "list_all isDigit (natToString n)"
proof (induction n rule: natToString.induct)
  case (1 n)
  show ?case
  proof (cases "n < 10")
    case True
    then show ?thesis by (subst natToString.simps) (simp add: isDigit_digitChar)
  next
    case False
    then show ?thesis using 1 by (subst natToString.simps) (simp add: isDigit_digitChar)
  qed
qed

lemma natToString_nonempty: "natToString n \<noteq> []"
  by (subst natToString.simps) simp

lemma digitsValue_snoc: "digitsValue (xs @ [c]) = 10 * digitsValue xs + int (digitVal c)"
  by (simp add: digitsValue_def)

lemma digitsValue_zeros: "digitsValue (replicate k CHR ''0'' @ s) = digitsValue s"
proof -
  have z: "foldl (\<lambda>acc c. 10 * acc + int (digitVal c)) 0 (replicate k CHR ''0'') = 0"
    by (induction k) (simp_all add: digitVal_def)
  show ?thesis by (simp add: digitsValue_def z)
qed

lemma digitsValue_natToString: "digitsValue (natToString n) = int n"
proof (induction n rule: natToString.induct)
  case (1 n)
  show ?case
  proof (cases "n < 10")
    case True
    then show ?thesis
      by (subst natToString.simps) (simp add: digitsValue_def digitVal_digitChar)
  next
    case False
    then have "digitsValue (natToString n) =
        10 * digitsValue (natToString (n div 10)) + int (digitVal (digitChar (n mod 10)))"
      by (subst natToString.simps) (simp add: digitsValue_snoc)
    also have "\<dots> = 10 * int (n div 10) + int (n mod 10)"
      using 1 False by (simp add: digitVal_digitChar)
    also have "\<dots> = int n" by (simp add: of_nat_div of_nat_mod)
    finally show ?thesis .
  qed
qed

lemma stripZerosSpec_snoc:
  "stripZerosSpec (xs @ [x]) = (if x = CHR ''0'' then stripZerosSpec xs else xs @ [x])"
  by (subst stripZerosSpec.simps) simp

lemma stripTrailingZeros_snoc:
  "stripTrailingZeros (xs @ [x]) = (if x = CHR ''0'' then stripTrailingZeros xs else xs @ [x])"
  by (simp add: stripTrailingZeros_def)

lemma stripTrailingZeros_spec: "stripTrailingZeros s = stripZerosSpec s"
proof (induction s rule: rev_induct)
  case Nil
  show ?case by (simp add: stripTrailingZeros_def stripZerosSpec.simps)
next
  case (snoc x xs)
  then show ?case by (simp only: stripTrailingZeros_snoc stripZerosSpec_snoc)
qed

lemma stripTrailingZeros_pad:
  "stripTrailingZeros f @ replicate (length f - length (stripTrailingZeros f)) CHR ''0'' = f"
proof (induction f rule: rev_induct)
  case Nil
  show ?case by (simp add: stripTrailingZeros_def)
next
  case (snoc x xs)
  have le: "length (stripTrailingZeros xs) \<le> length xs"
    by (simp add: stripTrailingZeros_def length_dropWhile_le [of _ "rev xs", simplified])
  show ?case
  proof (cases "x = CHR ''0''")
    case True
    have "stripTrailingZeros xs @ replicate (Suc (length xs) - length (stripTrailingZeros xs)) CHR ''0''
        = (stripTrailingZeros xs @ replicate (length xs - length (stripTrailingZeros xs)) CHR ''0'') @ [CHR ''0'']"
      using le by (simp add: Suc_diff_le replicate_append_same)
    then show ?thesis using True snoc by (simp add: stripTrailingZeros_snoc)
  next
    case False
    then show ?thesis by (simp add: stripTrailingZeros_snoc)
  qed
qed

lemma stripTrailingZeros_length: "length (stripTrailingZeros f) \<le> length f"
  by (simp add: stripTrailingZeros_def length_dropWhile_le [of _ "rev f", simplified])

lemma stripTrailingZeros_set: "set (stripTrailingZeros f) \<subseteq> set f"
  using set_dropWhileD [of _ _ "rev f"] by (auto simp: stripTrailingZeros_def)

lemma padStart_length: "length (padStart s n c) = max (nat n) (length s)"
  by (simp add: padStart_def)

lemma slice_last_digits:
  assumes "0 < d" and "nat d \<le> length s"
  shows "slice s 0 (- d) = take (length s - nat d) s"
    and "sliceFrom s (- d) = drop (length s - nat d) s"
proof -
  have i: "sliceIndex s (- d) = length s - nat d"
    using assms by (simp add: sliceIndex_def Let_def nat_diff_distrib')
  have z: "sliceIndex s 0 = 0" by (simp add: sliceIndex_def)
  show "slice s 0 (- d) = take (length s - nat d) s" by (simp add: slice_def i z)
  show "sliceFrom s (- d) = drop (length s - nat d) s" by (simp add: sliceFrom_def i)
qed

lemma formatUnits_parts:
  assumes "0 < decimals"
  shows "formatUnits raw decimals =
     (let s = padStart (toString raw) (decimals + 1) CHR ''0'';
          ip = take (length s - nat decimals) s;
          fp = stripTrailingZeros (drop (length s - nat decimals) s)
      in ip @ (if fp = [] then [] else CHR ''.'' # fp))"
proof -
  have len: "nat decimals \<le> length (padStart (toString raw) (decimals + 1) CHR ''0'')"
    using assms by (simp add: padStart_length)
  show ?thesis
    using assms by (simp add: formatUnits_def Let_def slice_last_digits [OF assms len])
qed

lemmas formatUnits_eval =
  formatUnits_def toString_def natToString.simps digitChar_def padStart_def slice_def
  sliceFrom_def sliceIndex_def stripTrailingZeros_def Let_def

text \<open>
  Claim C7 (formatting). \<^verbatim>\<open>formatUnits\<close> computes what the specification describes for
  \<^verbatim>\<open>toDisplay\<close>: the decimal text of the integer when \<open>decimals \<le> 0\<close>, and otherwise the
  zero-padded text split before its last \<open>decimals\<close> digits, with the trailing zeros of
  the fractional part stripped and the dot written only when a fractional digit is left.
  With 6 decimals, 1000000 is \<open>1\<close>, 1500000 is \<open>1.5\<close> and 0 is \<open>0\<close>.
\<close>

theorem formatUnits_as_specified:
  "formatUnits raw decimals = toDisplaySpec raw decimals
   \<and> formatUnits 1000000 6 = ''1'' \<and> formatUnits 1500000 6 = ''1.5'' \<and> formatUnits 0 6 = ''0''"
proof -
  have eq: "formatUnits raw decimals = toDisplaySpec raw decimals"
  proof (cases "decimals \<le> 0")
    case True
    then show ?thesis by (simp add: formatUnits_def toDisplaySpec_def)
  next
    case False
    let ?s = "padStart (toString raw) (decimals + 1) CHR ''0''"
    have pos: "0 < decimals" using False by simp
    have len: "nat decimals \<le> length ?s" using pos by (simp add: padStart_length)
    have pad: "?s = (if length (toString raw) < nat decimals + 1
                     then replicate (nat decimals + 1 - length (toString raw)) CHR ''0'' @ toString raw
                     else toString raw)"
      using pos by (simp add: padStart_def nat_add_distrib)
    let ?fr = "stripZerosSpec (drop (length ?s - nat decimals) ?s)"
    let ?ip = "take (length ?s - nat decimals) ?s"
    have spec: "toDisplaySpec raw decimals = (if ?fr = [] then ?ip else ?ip @ CHR ''.'' # ?fr)"
      using False by (simp only: toDisplaySpec_def Let_def pad [symmetric] if_False)
    have code: "formatUnits raw decimals = (if ?fr = [] then ?ip else ?ip @ CHR ''.'' # ?fr)"
      using False
      by (simp add: formatUnits_def Let_def slice_last_digits [OF pos len] stripTrailingZeros_spec)
    show ?thesis by (simp only: spec code)
  qed
  have e1: "formatUnits 1000000 6 = ''1''" by (simp add: formatUnits_eval)
  have e2: "formatUnits 1500000 6 = ''1.5''" by (simp add: formatUnits_eval)
  have e3: "formatUnits 0 6 = ''0''" by (simp add: formatUnits_eval)
  from eq e1 e2 e3 show ?thesis by simp
qed

theorem formatUnits_as_specified_witness:
  "formatUnits 1234 2 = ''12.34'' \<and> toDisplaySpec 1234 2 = ''12.34''"
proof -
  have "formatUnits 1234 2 = ''12.34''" by (simp add: formatUnits_eval)
  with formatUnits_as_specified [of 1234 2] show ?thesis by simp
qed

subsection \<open>Parsing\<close>

lemma split_no_sep: "c \<notin> set s \<Longrightarrow> split s c = [s]"
  by (induction s) auto

lemma split_at_sep: "c \<notin> set s \<Longrightarrow> split (s @ c # t) c = s # split t c"
  by (induction s) auto

lemma trim_no_space: "\<forall>c\<in>set s. \<not> isWhiteSpace c \<Longrightarrow> trim s = s"
proof -
  assume a: "\<forall>c\<in>set s. \<not> isWhiteSpace c"
  have d: "dropWhile isWhiteSpace xs = xs" if "\<forall>c\<in>set xs. \<not> isWhiteSpace c" for xs
    using that by (cases xs) auto
  show ?thesis using a by (simp add: trim_def d)
qed

lemma amountRegexTest_digits:
  assumes "ip \<noteq> []" and "list_all isDigit ip"
  shows "amountRegexTest ip"
proof -
  have t: "takeWhile isDigit ip = ip" and d: "dropWhile isDigit ip = []"
    using assms(2) by (simp_all add: list_all_iff)
  show ?thesis using assms(1) by (simp add: amountRegexTest_def t d)
qed

lemma amountRegexTest_fraction:
  assumes "ip \<noteq> []" and "list_all isDigit ip" and "fp \<noteq> []" and "list_all isDigit fp"
  shows "amountRegexTest (ip @ CHR ''.'' # fp)"
proof -
  have t: "takeWhile isDigit (ip @ CHR ''.'' # fp) = ip"
    using assms(2) dot_not_digit by (simp add: list_all_iff takeWhile_append2)
  have d: "dropWhile isDigit (ip @ CHR ''.'' # fp) = CHR ''.'' # fp"
    using assms(2) dot_not_digit by (simp add: list_all_iff dropWhile_append2)
  show ?thesis using assms by (simp add: amountRegexTest_def t d)
qed

lemma amountRegexTest_syntax: "amountRegexTest t \<longleftrightarrow> amountSyntax t"
proof
  assume r: "amountRegexTest t"
  let ?ip = "takeWhile isDigit t"
  have ip: "?ip \<noteq> []" "list_all isDigit ?ip"
    using r by (auto simp: amountRegexTest_def list_all_iff split: list.splits dest: set_takeWhileD)
  have t: "t = ?ip @ dropWhile isDigit t" by simp
  show "amountSyntax t"
  proof (cases "dropWhile isDigit t")
    case Nil
    with t have "t = ?ip" by simp
    with ip show ?thesis unfolding amountSyntax_def by (intro exI [of _ ?ip] exI [of _ "[]"]) simp
  next
    case (Cons c fp)
    with r have c: "c = CHR ''.''" and fp: "fp \<noteq> []" "list_all isDigit fp"
      by (simp_all add: amountRegexTest_def)
    from t Cons c have "t = ?ip @ CHR ''.'' # fp" by simp
    with ip fp show ?thesis unfolding amountSyntax_def
      by (intro exI [of _ ?ip] exI [of _ fp]) simp
  qed
next
  assume "amountSyntax t"
  then show "amountRegexTest t"
    by (auto simp: amountSyntax_def amountRegexTest_digits amountRegexTest_fraction)
qed

lemma BigInt_digits: "list_all isDigit s \<Longrightarrow> BigInt s = Some (digitsValue s)"
  by (simp add: BigInt_def)

lemma parseUnits_integer:
  assumes "ip \<noteq> []" and "list_all isDigit ip" and "trim amount = ip" and "0 \<le> decimals"
  shows "parseUnits amount decimals = Inr (digitsValue (ip @ replicate (nat decimals) CHR ''0''))"
proof -
  have parts: "split ip CHR ''.'' = [ip]"
    by (rule split_no_sep) (rule digits_no_dot [OF assms(2)])
  have big: "BigInt (ip @ replicate (nat decimals) CHR ''0'') =
      Some (digitsValue (ip @ replicate (nat decimals) CHR ''0''))"
    by (rule BigInt_digits) (use assms(2) in \<open>auto simp: list_all_iff zero_digit\<close>)
  show ?thesis
    using assms(4) big amountRegexTest_digits [OF assms(1,2)]
    by (simp add: parseUnits_def Let_def assms(3) parts padEnd_def BigInt_digits [OF assms(2)])
qed

lemma parseUnits_fraction:
  assumes "ip \<noteq> []" and "list_all isDigit ip" and "fp \<noteq> []" and "list_all isDigit fp"
    and "trim amount = ip @ CHR ''.'' # fp" and "0 \<le> decimals"
  shows "parseUnits amount decimals =
           (if int (length fp) > decimals then Inl PrecisionOverflow
            else Inr (digitsValue (ip @ fp @ replicate (nat decimals - length fp) CHR ''0'')))"
proof -
  have parts: "split (ip @ CHR ''.'' # fp) CHR ''.'' = [ip, fp]"
    by (simp add: split_at_sep [OF digits_no_dot [OF assms(2)]] split_no_sep [OF digits_no_dot [OF assms(4)]])
  have big: "BigInt (ip @ fp @ replicate (nat decimals - length fp) CHR ''0'') =
      Some (digitsValue (ip @ fp @ replicate (nat decimals - length fp) CHR ''0''))"
    by (rule BigInt_digits) (use assms(2,4) in \<open>auto simp: list_all_iff zero_digit\<close>)
  have pos: "0 < decimals" if "\<not> int (length fp) > decimals"
    using that assms(3) by (cases fp) auto
  show ?thesis
    using assms(6) big pos amountRegexTest_fraction [OF assms(1,2,3,4)]
    by (simp add: parseUnits_def Let_def assms(5) parts padEnd_def)
qed

lemma parseUnits_syntax:
  assumes "ip \<noteq> []" and "list_all isDigit ip" and "list_all isDigit fp"
    and "trim amount = ip @ (if fp = [] then [] else CHR ''.'' # fp)" and "0 \<le> decimals"
  shows "parseUnits amount decimals =
           (if int (length fp) > decimals then Inl PrecisionOverflow
            else Inr (digitsValue (ip @ fp @ replicate (nat decimals - length fp) CHR ''0'')))"
proof (cases "fp = []")
  case True
  then show ?thesis using parseUnits_integer [OF assms(1,2) _ assms(5), of amount] assms(4,5) by simp
next
  case False
  then show ?thesis using parseUnits_fraction [OF assms(1,2) False assms(3) _ assms(5), of amount] assms(4)
    by simp
qed

lemma parseUnits_invalid: "\<not> amountRegexTest (trim amount) \<Longrightarrow> parseUnits amount decimals = Inl InvalidAmount"
  by (simp add: parseUnits_def)

lemma parseUnits_no_syntax_error: "parseUnits amount decimals \<noteq> Inl BigIntSyntaxError"
proof (cases "amountRegexTest (trim amount)")
  case False
  then show ?thesis by (simp add: parseUnits_def)
next
  case True
  then obtain ip fp where ip: "list_all isDigit ip" and fp: "list_all isDigit fp"
    and t: "trim amount = ip \<or> trim amount = ip @ CHR ''.'' # fp"
    unfolding amountRegexTest_syntax amountSyntax_def by blast
  have parts: "split (trim amount) CHR ''.'' = [ip] \<or> split (trim amount) CHR ''.'' = [ip, fp]"
    using t split_no_sep [OF digits_no_dot [OF ip]] split_no_sep [OF digits_no_dot [OF fp]]
      split_at_sep [OF digits_no_dot [OF ip], of fp]
    by auto
  have zeros: "list_all isDigit (replicate n CHR ''0'')" for n
    by (simp add: list_all_iff zero_digit)
  from parts show ?thesis
    using ip fp zeros by (auto simp: parseUnits_def Let_def BigInt_def padEnd_def)
qed

lemma digitsValue_nonneg: "0 \<le> digitsValue s"
proof -
  have "0 \<le> a \<Longrightarrow> 0 \<le> foldl (\<lambda>acc c. 10 * acc + int (digitVal c)) a s" for a
    by (induction s arbitrary: a) simp_all
  then show ?thesis by (simp add: digitsValue_def)
qed

lemma parseUnits_nonneg: "parseUnits amount decimals = Inr v \<Longrightarrow> 0 \<le> v"
  using digitsValue_nonneg
  by (auto simp: parseUnits_def Let_def BigInt_def split: if_splits option.splits)

lemmas parseUnits_eval =
  parseUnits_def trim_def isWhiteSpace_def amountRegexTest_def isDigit_def padEnd_def
  BigInt_def digitsValue_def digitVal_def Let_def

lemma parseUnits_no_break_space: "parseUnits [CHR 0xA0, CHR ''1''] 0 = Inr 1"
  by (simp add: parseUnits_eval)

text \<open>
  Claim C5 (errors of \<^verbatim>\<open>parseUnits\<close>), as amended: \<^verbatim>\<open>parseUnits\<close> trims the text first
  (white space and line terminators, the no-break space included).
  For \<open>decimals \<ge> 0\<close> it fails with \<open>InvalidAmount\<close> exactly when the trimmed text does
  not match the pattern; when the trimmed text is an integer part \<open>ip\<close> with an optional
  fractional part \<open>fp\<close>, it fails with \<open>PrecisionOverflow\<close> if \<open>fp\<close> has more than
  \<open>decimals\<close> digits and otherwise returns the number spelled by \<open>ip\<close> followed by
  \<open>fp\<close> padded on the right with zeros to \<open>decimals\<close> digits. The text \<open>1.2345\<close> with
  2 decimals gives \<open>PrecisionOverflow\<close>.
\<close>

theorem parseUnits_errors:
  assumes "0 \<le> decimals"
  shows "(parseUnits amount decimals = Inl InvalidAmount \<longleftrightarrow> \<not> amountSyntax (trim amount))
     \<and> (\<forall>ip fp. ip \<noteq> [] \<and> list_all isDigit ip \<and> list_all isDigit fp \<and>
              trim amount = ip @ (if fp = [] then [] else CHR ''.'' # fp) \<longrightarrow>
            parseUnits amount decimals =
              (if int (length fp) > decimals then Inl PrecisionOverflow
               else Inr (digitsValue (ip @ fp @ replicate (nat decimals - length fp) CHR ''0''))))
     \<and> parseUnits ''1.2345'' 2 = Inl PrecisionOverflow"
proof -
  have valid: "parseUnits amount decimals \<noteq> Inl InvalidAmount" if "amountSyntax (trim amount)"
  proof -
    from that obtain ip fp where ip: "ip \<noteq> []" "list_all isDigit ip" and fp: "list_all isDigit fp"
      and t: "trim amount = ip \<or> (fp \<noteq> [] \<and> trim amount = ip @ CHR ''.'' # fp)"
      unfolding amountSyntax_def by blast
    from t show ?thesis
    proof
      assume "trim amount = ip"
      from parseUnits_integer [OF ip this assms] show ?thesis by simp
    next
      assume "fp \<noteq> [] \<and> trim amount = ip @ CHR ''.'' # fp"
      then have "fp \<noteq> []" and "trim amount = ip @ CHR ''.'' # fp" by simp_all
      from parseUnits_fraction [OF ip this(1) fp this(2) assms] show ?thesis by simp
    qed
  qed
  have iff: "parseUnits amount decimals = Inl InvalidAmount \<longleftrightarrow> \<not> amountSyntax (trim amount)"
    using valid parseUnits_invalid [of amount decimals] by (auto simp: amountRegexTest_syntax)
  have ex: "parseUnits ''1.2345'' 2 = Inl PrecisionOverflow"
    by (simp add: parseUnits_eval)
  show ?thesis using iff ex parseUnits_syntax [OF _ _ _ _ assms, of _ _ amount] by blast
qed

theorem parseUnits_errors_witness:
  "(0::int) \<le> 6 \<and> parseUnits '' 1.5'' 6 = Inr (digitsValue ''1500000'')
   \<and> parseUnits ''1.5x'' 6 = Inl InvalidAmount"
proof -
  have t: "trim '' 1.5'' = ''1'' @ (if ''5'' = [] then [] else CHR ''.'' # ''5'')"
    by (simp add: trim_def isWhiteSpace_def)
  have d: "list_all isDigit ''1''" "list_all isDigit ''5''" by (simp_all add: isDigit_def)
  have n: "\<not> amountSyntax (trim ''1.5x'')"
    by (simp add: amountRegexTest_syntax [symmetric] amountRegexTest_def trim_def isWhiteSpace_def isDigit_def)
  have h: "(0::int) \<le> 6" by simp
  from parseUnits_errors [OF h, of "'' 1.5''", THEN conjunct2, THEN conjunct1, rule_format, of "''1''" "''5''"] t d
  have a: "parseUnits '' 1.5'' 6 = Inr (digitsValue ''1500000'')"
    by (simp add: numeral_eq_Suc)
  from parseUnits_errors [OF h, of "''1.5x''", THEN conjunct1] n
  have b: "parseUnits ''1.5x'' 6 = Inl InvalidAmount" by simp
  from a b show ?thesis by simp
qed

text \<open>
  The claim C5 as stated, on the text itself, fails: a digit after a space does not match
  the pattern, and \<^verbatim>\<open>parseUnits\<close> accepts it.
\<close>

theorem parseUnits_whitespace_counterexample:
  "\<not> amountSyntax '' 1'' \<and> \<not> amountRegexTest '' 1'' \<and> parseUnits '' 1'' 0 = Inr 1"
  by (simp add: amountRegexTest_syntax [symmetric] parseUnits_eval)

text \<open>
  Claim C2 (round trip). Parsing the text that \<^verbatim>\<open>formatUnits\<close> gives for an integer
  \<open>raw \<ge> 0\<close> with \<open>decimals \<ge> 0\<close> returns \<open>raw\<close>.
\<close>

theorem parseUnits_formatUnits:
  assumes "0 \<le> raw" and "0 \<le> decimals"
  shows "parseUnits (formatUnits raw decimals) decimals = Inr raw"
proof (cases "0 < decimals")
  case False
  let ?ip = "natToString (nat raw)"
  have f: "formatUnits raw decimals = ?ip"
    using False assms(1) by (simp add: formatUnits_def toString_def)
  have t: "trim ?ip = ?ip"
    by (rule trim_no_space) (use natToString_digits [of "nat raw"] in \<open>auto simp: list_all_iff digit_not_space\<close>)
  have "nat decimals = 0" using False by simp
  with parseUnits_integer [OF natToString_nonempty natToString_digits t assms(2)]
  show ?thesis unfolding f using assms(1) by (simp add: digitsValue_natToString)
next
  case True
  let ?d = "nat decimals"
  let ?n = "natToString (nat raw)"
  let ?s = "padStart ?n (decimals + 1) CHR ''0''"
  let ?ip = "take (length ?s - ?d) ?s"
  let ?f0 = "drop (length ?s - ?d) ?s"
  let ?fp = "stripTrailingZeros ?f0"
  let ?t = "?ip @ (if ?fp = [] then [] else CHR ''.'' # ?fp)"
  have str: "toString raw = ?n" using assms(1) by (simp add: toString_def)
  have f: "formatUnits raw decimals = ?t"
    using formatUnits_parts [OF True, of raw] by (simp add: Let_def str)
  have s_digits: "list_all isDigit ?s"
    using natToString_digits [of "nat raw"] by (auto simp: padStart_def list_all_iff zero_digit)
  have s_len: "?d < length ?s" using True by (simp add: padStart_length)
  have ip_ne: "?ip \<noteq> []" using s_len by (auto simp: take_eq_Nil)
  have ip_digits: "list_all isDigit ?ip"
    using s_digits by (auto simp: list_all_iff dest: in_set_takeD)
  have f0_digits: "list_all isDigit ?f0"
    using s_digits by (auto simp: list_all_iff dest: in_set_dropD)
  have fp_digits: "list_all isDigit ?fp"
    using f0_digits stripTrailingZeros_set [of ?f0] by (auto simp: list_all_iff)
  have f0_len: "length ?f0 = ?d" using s_len by simp
  have fp_len: "length ?fp \<le> ?d" using stripTrailingZeros_length [of ?f0] f0_len by simp
  have t_chars: "\<forall>c\<in>set ?t. \<not> isWhiteSpace c"
    using ip_digits fp_digits by (auto simp: list_all_iff digit_not_space dot_not_space)
  have t: "trim ?t = ?t" by (rule trim_no_space [OF t_chars])
  have padded: "?fp @ replicate (?d - length ?fp) CHR ''0'' = ?f0"
    using stripTrailingZeros_pad [of ?f0] by (simp only: f0_len)
  have rebuilt: "?ip @ ?fp @ replicate (?d - length ?fp) CHR ''0'' = ?s"
    by (simp only: padded append_take_drop_id)
  have "parseUnits ?t decimals =
          (if int (length ?fp) > decimals then Inl PrecisionOverflow
           else Inr (digitsValue (?ip @ ?fp @ replicate (?d - length ?fp) CHR ''0'')))"
    by (rule parseUnits_syntax [OF ip_ne ip_digits fp_digits t assms(2)])
  also have "\<dots> = Inr (digitsValue ?s)"
    using fp_len assms(2) by (simp only: rebuilt) simp
  also have "digitsValue ?s = raw"
    using assms(1) by (simp add: padStart_def digitsValue_zeros digitsValue_natToString)
  finally show ?thesis by (simp only: f)
qed

theorem parseUnits_formatUnits_witness:
  "(0::int) \<le> 1500000 \<and> (0::int) \<le> 6 \<and> formatUnits 1500000 6 = ''1.5'' \<and> parseUnits ''1.5'' 6 = Inr 1500000"
proof -
  have h1: "(0::int) \<le> 1500000" and h2: "(0::int) \<le> 6" by simp_all
  have f: "formatUnits 1500000 6 = ''1.5''" by (simp add: formatUnits_eval)
  from parseUnits_formatUnits [OF h1 h2] f show ?thesis by simp
qed

section \<open>Properties of the command line\<close>

lemma addExcluded_Cons:
  "addExcluded (p # parts) excluded =
     addExcluded parts
       (if toLowerCase (trim p) \<noteq> [] then insert (toLowerCase (trim p)) excluded else excluded)"
  by (simp add: addExcluded_def Let_def)

lemma addExcluded_Nil: "addExcluded [] excluded = excluded"
  by (simp add: addExcluded_def)

lemma addExcluded_mono: "excluded \<subseteq> addExcluded parts excluded"
proof (induction parts arbitrary: excluded)
  case Nil
  show ?case by (simp add: addExcluded_Nil)
next
  case (Cons p parts)
  have "excluded \<subseteq> (if toLowerCase (trim p) \<noteq> [] then insert (toLowerCase (trim p)) excluded else excluded)"
    by auto
  also have "\<dots> \<subseteq> addExcluded (p # parts) excluded"
    unfolding addExcluded_Cons by (rule Cons.IH)
  finally show ?case .
qed

lemma addExcluded_member:
  "p \<in> set parts \<Longrightarrow> toLowerCase (trim p) \<noteq> [] \<Longrightarrow>
   toLowerCase (trim p) \<in> addExcluded parts excluded"
proof (induction parts arbitrary: excluded)
  case Nil
  then show ?case by simp
next
  case (Cons q parts)
  show ?case
  proof (cases "p = q")
    case True
    then have "toLowerCase (trim p) \<in>
        (if toLowerCase (trim q) \<noteq> [] then insert (toLowerCase (trim q)) excluded else excluded)"
      using Cons.prems(2) by simp
    then show ?thesis
      unfolding addExcluded_Cons using addExcluded_mono by blast
  next
    case False
    then have "p \<in> set parts" using Cons.prems(1) by simp
    then show ?thesis unfolding addExcluded_Cons by (rule Cons.IH [OF _ Cons.prems(2)])
  qed
qed

lemma startsWith_flag: "startsWith ''--exclude'' ''--''" "startsWith ''--airdrop'' ''--''"
  by (simp_all add: startsWith_def)

lemma parseFlags_airdrop_kept:
  "parseFlags args airdrop excluded = Inr (airdrop', excluded') \<Longrightarrow> ''--airdrop'' \<notin> set args \<Longrightarrow>
   airdrop' = airdrop"
  by (induction args airdrop excluded rule: parseFlags.induct)
     (auto split: if_splits list.splits)

lemma parseFlags_mono:
  "parseFlags args airdrop excluded = Inr (airdrop', excluded') \<Longrightarrow> excluded \<subseteq> excluded'"
proof (induction args airdrop excluded rule: parseFlags.induct)
  case (1 airdrop excluded)
  then show ?case by simp
next
  case (2 arg rest airdrop excluded)
  show ?case
  proof (cases "arg = ''--airdrop''")
    case True
    with 2 show ?thesis by (auto split: if_splits list.splits)
  next
    case False
    with 2 addExcluded_mono show ?thesis
      by (fastforce split: if_splits list.splits)
  qed
qed

lemma parseFlags_exclude:
  "parseFlags args airdrop excluded = Inr (airdrop', excluded') \<Longrightarrow>
   Suc i < length args \<Longrightarrow> args ! i = ''--exclude'' \<Longrightarrow>
   p \<in> set (split (args ! Suc i) CHR '','') \<Longrightarrow> toLowerCase (trim p) \<noteq> [] \<Longrightarrow>
   toLowerCase (trim p) \<in> excluded'"
proof (induction args airdrop excluded arbitrary: i rule: parseFlags.induct)
  case (1 airdrop excluded)
  then show ?case by simp
next
  case (2 arg rest airdrop excluded)
  from "2.prems"(1) obtain v rest' where rest: "rest = v # rest'"
    by (cases rest) (auto split: if_splits)
  from "2.prems"(1) rest have v: "\<not> (v = [] \<or> startsWith v ''--'')"
    by (auto split: if_splits)
  from "2.prems"(1) have flag: "arg = ''--airdrop'' \<or> arg = ''--exclude''"
    by (auto split: if_splits)
  show ?case
  proof (cases i)
    case 0
    with "2.prems"(3) have ex: "arg = ''--exclude''" by simp
    with "2.prems"(1) rest v have run: "parseFlags rest' airdrop (addExcluded (split v CHR '','') excluded)
        = Inr (airdrop', excluded')"
      by simp
    have "toLowerCase (trim p) \<in> addExcluded (split v CHR '','') excluded"
      using "2.prems"(4,5) 0 rest by (simp add: addExcluded_member)
    with parseFlags_mono [OF run] show ?thesis by blast
  next
    case (Suc j)
    show ?thesis
    proof (cases j)
      case 0
      with Suc "2.prems"(3) rest have "v = ''--exclude''" by simp
      with v startsWith_flag(1) show ?thesis by simp
    next
      case (Suc k)
      with \<open>i = Suc j\<close> have i: "i = Suc (Suc k)" by simp
      have len: "Suc k < length rest'" using "2.prems"(2) rest i by simp
      have at: "rest' ! k = ''--exclude''" using "2.prems"(3) rest i by simp
      have part: "p \<in> set (split (rest' ! Suc k) CHR '','')" using "2.prems"(4) rest i by simp
      from flag show ?thesis
      proof
        assume a: "arg = ''--airdrop''"
        with "2.prems"(1) rest v have run: "parseFlags rest' (Some (trim v)) excluded = Inr (airdrop', excluded')"
          by simp
        from "2.IH"(1) [OF a rest v run len at part "2.prems"(5)] show ?thesis .
      next
        assume e: "arg = ''--exclude''"
        then have na: "arg \<noteq> ''--airdrop''" by simp
        from "2.prems"(1) rest v e have run:
          "parseFlags rest' airdrop (addExcluded (split v CHR '','') excluded) = Inr (airdrop', excluded')"
          by simp
        from "2.IH"(2) [OF na e rest v run len at part "2.prems"(5)] show ?thesis .
      qed
    qed
  qed
qed

lemma toLowerCaseChar_idem: "toLowerCaseChar (toLowerCaseChar c) = toLowerCaseChar c"
  by (simp add: toLowerCaseChar_def)

lemma toLowerCase_idem: "toLowerCase (toLowerCase s) = toLowerCase s"
  by (simp add: toLowerCase_def toLowerCaseChar_idem)

lemma addExcluded_lower:
  "(\<forall>e\<in>excluded. toLowerCase e = e) \<Longrightarrow> \<forall>e\<in>addExcluded parts excluded. toLowerCase e = e"
proof (induction parts arbitrary: excluded)
  case Nil
  then show ?case by (simp add: addExcluded_Nil)
next
  case (Cons p parts)
  have "\<forall>e\<in>(if toLowerCase (trim p) \<noteq> [] then insert (toLowerCase (trim p)) excluded else excluded).
          toLowerCase e = e"
    using Cons.prems by (simp add: toLowerCase_idem)
  then show ?case unfolding addExcluded_Cons by (rule Cons.IH)
qed

lemma parseFlags_lower:
  "parseFlags args airdrop excluded = Inr (airdrop', excluded') \<Longrightarrow>
   (\<forall>e\<in>excluded. toLowerCase e = e) \<Longrightarrow> \<forall>e\<in>excluded'. toLowerCase e = e"
proof (induction args airdrop excluded rule: parseFlags.induct)
  case (1 airdrop excluded)
  then show ?case by simp
next
  case (2 arg rest airdrop excluded)
  from "2.prems"(1) obtain v rest' where rest: "rest = v # rest'"
    by (cases rest) (auto split: if_splits)
  from "2.prems"(1) rest have v: "\<not> (v = [] \<or> startsWith v ''--'')"
    by (auto split: if_splits)
  from "2.prems"(1) have "arg = ''--airdrop'' \<or> arg = ''--exclude''"
    by (auto split: if_splits)
  then show ?case
  proof
    assume a: "arg = ''--airdrop''"
    with "2.prems"(1) rest v have run: "parseFlags rest' (Some (trim v)) excluded = Inr (airdrop', excluded')"
      by simp
    from "2.IH"(1) [OF a rest v run "2.prems"(2)] show ?thesis .
  next
    assume e: "arg = ''--exclude''"
    then have na: "arg \<noteq> ''--airdrop''" by simp
    from "2.prems"(1) rest v e have run:
      "parseFlags rest' airdrop (addExcluded (split v CHR '','') excluded) = Inr (airdrop', excluded')"
      by simp
    from "2.IH"(2) [OF na e rest v run addExcluded_lower [OF "2.prems"(2)]] show ?thesis .
  qed
qed

lemma parseCliArgs_excluded_lower:
  "parseCliArgs argv = Inr args \<Longrightarrow> e \<in> excludedAddresses args \<Longrightarrow> toLowerCase e = e"
proof -
  assume ok: "parseCliArgs argv = Inr args" and e: "e \<in> excludedAddresses args"
  from ok obtain a rest airdrop where "argv = a # rest"
    and run: "parseFlags rest None {} = Inr (airdrop, excludedAddresses args)"
    by (auto simp: parseCliArgs_def Let_def split: list.splits if_splits sum.splits)
  from parseFlags_lower [OF run] e show ?thesis by simp
qed

lemma excluded_match_iff:
  assumes "\<forall>e\<in>excluded. toLowerCase e = e"
  shows "toLowerCase a \<in> excluded \<longleftrightarrow> (\<exists>e\<in>excluded. toLowerCase a = toLowerCase e)"
proof
  assume "toLowerCase a \<in> excluded"
  then show "\<exists>e\<in>excluded. toLowerCase a = toLowerCase e"
    by (intro bexI [of _ "toLowerCase a"]) (simp_all add: toLowerCase_idem)
next
  assume "\<exists>e\<in>excluded. toLowerCase a = toLowerCase e"
  then obtain e where "e \<in> excluded" and "toLowerCase a = toLowerCase e" by blast
  with assms show "toLowerCase a \<in> excluded" by simp
qed

lemmas parseCliArgs_eval =
  parseCliArgs_def trim_def isWhiteSpace_def startsWith_def addExcluded_def toLowerCase_def
  toLowerCaseChar_def Let_def

lemma parseCliArgs_no_break_space:
  "parseCliArgs [''c'', ''--exclude'', [CHR 0xA0]] =
     Inr \<lparr>coinAddress = ''c'', airdropAmount = None, excludedAddresses = {}\<rparr>"
  by (simp add: parseCliArgs_eval)

text \<open>
  Claim C9 (the exclusion flag needs the allocation flag), as amended: when the arguments
  after the coin address hold \<^verbatim>\<open>--exclude\<close> followed by a value one of whose
  comma-separated parts is not blank (not empty once \<^verbatim>\<open>trim\<close> has removed its white
  space, the no-break space included), and do not hold \<^verbatim>\<open>--airdrop\<close>, parsing fails.
\<close>

theorem parseCliArgs_exclude_needs_airdrop:
  assumes "''--airdrop'' \<notin> set (tl argv)"
    and "Suc i < length (tl argv)"
    and "tl argv ! i = ''--exclude''"
    and "p \<in> set (split (tl argv ! Suc i) CHR '','')"
    and "toLowerCase (trim p) \<noteq> []"
  shows "\<exists>e. parseCliArgs argv = Inl e"
proof (cases argv)
  case Nil
  then show ?thesis by (simp add: parseCliArgs_def)
next
  case (Cons a rest)
  show ?thesis
  proof (cases "parseFlags rest None {}")
    case (Inl e)
    then show ?thesis by (simp add: parseCliArgs_def Cons Let_def)
  next
    case (Inr r)
    obtain airdrop excluded where r: "r = (airdrop, excluded)" by (cases r)
    have run: "parseFlags rest None {} = Inr (airdrop, excluded)" using Inr r by simp
    have none: "airdrop = None"
      using parseFlags_airdrop_kept [OF run] assms(1) Cons by simp
    have "toLowerCase (trim p) \<in> excluded"
      using parseFlags_exclude [OF run, of i p] assms(2-5) Cons by simp
    then have "excluded \<noteq> {}" by auto
    with none run show ?thesis by (simp add: parseCliArgs_def Cons Let_def)
  qed
qed

theorem parseCliArgs_exclude_needs_airdrop_witness:
  "''--airdrop'' \<notin> set (tl [''0x2::sui::SUI'', ''--exclude'', ''0xAB, 0xcd'']) \<and>
   tl [''0x2::sui::SUI'', ''--exclude'', ''0xAB, 0xcd''] ! 0 = ''--exclude'' \<and>
   ''0xAB'' \<in> set (split ''0xAB, 0xcd'' CHR '','') \<and>
   toLowerCase (trim ''0xAB'') = ''0xab'' \<and>
   parseCliArgs [''0x2::sui::SUI'', ''--exclude'', ''0xAB, 0xcd''] = Inl ExcludeWithoutAirdrop"
proof -
  let ?argv = "[''0x2::sui::SUI'', ''--exclude'', ''0xAB, 0xcd'']"
  have h1: "''--airdrop'' \<notin> set (tl ?argv)" by simp
  have h2: "Suc 0 < length (tl ?argv)" by simp
  have h3: "tl ?argv ! 0 = ''--exclude''" by simp
  have h4: "''0xAB'' \<in> set (split (tl ?argv ! Suc 0) CHR '','')" by simp
  have low: "toLowerCase (trim ''0xAB'') = ''0xab''"
    by (simp add: toLowerCase_def toLowerCaseChar_def trim_def isWhiteSpace_def)
  have h5: "toLowerCase (trim ''0xAB'') \<noteq> []" by (simp add: low)
  from parseCliArgs_exclude_needs_airdrop [OF h1 h2 h3 h4 h5]
  obtain e where e: "parseCliArgs ?argv = Inl e" by blast
  have "parseCliArgs ?argv = Inl ExcludeWithoutAirdrop" by (simp add: parseCliArgs_eval)
  with e h1 h3 h4 low show ?thesis by simp
qed

text \<open>
  The claim C9 as stated, for every use of the exclusion flag, fails: a value that names
  no address, such as a single comma, leaves the set of excluded addresses empty, and the
  arguments are accepted without \<^verbatim>\<open>--airdrop\<close>.
\<close>

theorem parseCliArgs_blank_exclude_counterexample:
  "''--exclude'' \<in> set (tl [''0x2::sui::SUI'', ''--exclude'', '','']) \<and>
   ''--airdrop'' \<notin> set (tl [''0x2::sui::SUI'', ''--exclude'', '','']) \<and>
   parseCliArgs [''0x2::sui::SUI'', ''--exclude'', '',''] =
     Inr \<lparr>coinAddress = ''0x2::sui::SUI'', airdropAmount = None, excludedAddresses = {}\<rparr>"
  by (simp add: parseCliArgs_eval)

section \<open>Properties of maps\<close>

lemma mapGet_mapSet: "mapGet (mapSet m k v) k' = (if k' = k then Some v else mapGet m k')"
  by (induction m) (auto simp: mapGet_def)

lemma mapGet_empty: "mapGet [] a = None"
  by (simp add: mapGet_def)

lemma mapSet_fresh: "k \<notin> fst ` set m \<Longrightarrow> mapSet m k v = m @ [(k, v)]"
  by (induction m) auto

lemma keys_mapSet:
  "map fst (mapSet m k v) = (if k \<in> set (map fst m) then map fst m else map fst m @ [k])"
  by (induction m) (force+)

lemma distinct_mapSet: "distinct (map fst m) \<Longrightarrow> distinct (map fst (mapSet m k v))"
  by (simp add: keys_mapSet)

lemma sumValues_mapSet:
  "sumValues (mapSet m k v) = sumValues m - (case mapGet m k of None \<Rightarrow> 0 | Some w \<Rightarrow> w) + v"
  by (induction m) (auto simp: sumValues_def mapGet_def)

lemma balanceOr0_empty: "balanceOr0 [] a = 0"
  by (simp add: balanceOr0_def mapGet_def)

lemma balanceOr0_mapSet: "balanceOr0 (mapSet m k v) a = (if a = k then v else balanceOr0 m a)"
  by (simp add: balanceOr0_def mapGet_mapSet)

section \<open>Properties of the allocation\<close>

text \<open>
  The rows that \<^verbatim>\<open>main\<close> allocates to are the entries of the balance map, so no address
  occurs in two rows (lemmas \<open>aggregate_distinct\<close> and \<open>holderRows_distinct\<close> below); the
  statements about whole allocations assume it as \<open>distinct (map address rows)\<close>. The
  amount to distribute is a result of \<^verbatim>\<open>parseUnits\<close> and so not negative (lemma
  \<open>parseUnits_nonneg\<close>), and the raw balances are coin balances.
\<close>

lemma foldl_add_sum_list:
  "foldl (\<lambda>acc x. acc + f x) a xs = (a::int) + sum_list (map f xs)"
  by (induction xs arbitrary: a) simp_all

lemma eligibleTotalRawOf_sum:
  "eligibleTotalRawOf rows excluded = sum_list (map rawBalance (eligibleRowsOf rows excluded))"
  by (simp add: eligibleTotalRawOf_def foldl_add_sum_list)

lemma eligibleRowsOf_set:
  "row \<in> set (eligibleRowsOf rows excluded) \<longleftrightarrow>
     row \<in> set rows \<and> toLowerCase (address row) \<notin> excluded"
  by (auto simp: eligibleRowsOf_def)

lemma hd_eligible:
  "eligibleRowsOf rows excluded \<noteq> [] \<Longrightarrow>
     hd (eligibleRowsOf rows excluded) \<in> set rows \<and>
     toLowerCase (address (hd (eligibleRowsOf rows excluded))) \<notin> excluded"
  using hd_in_set [of "eligibleRowsOf rows excluded"] by (simp add: eligibleRowsOf_set)

lemma eligible_nonempty: "eligibleTotalRawOf rows excluded \<noteq> 0 \<Longrightarrow> eligibleRowsOf rows excluded \<noteq> []"
  by (auto simp: eligibleTotalRawOf_def)

lemma shareLoop_allocated:
  "snd (shareLoop rows totalRaw E excluded m acc) = acc + sum_list (map (shareOf totalRaw E excluded) rows)"
  by (induction rows arbitrary: m acc) (simp_all add: shareOf_def Let_def)

lemma shareLoop_distinct:
  "distinct (map address rows) \<Longrightarrow> address ` set rows \<inter> fst ` set m = {} \<Longrightarrow>
   fst (shareLoop rows totalRaw E excluded m acc) =
     m @ map (\<lambda>row. (address row, shareOf totalRaw E excluded row)) rows"
proof (induction rows arbitrary: m acc)
  case Nil
  then show ?case by simp
next
  case (Cons row rows)
  have fresh: "address row \<notin> fst ` set m" using Cons.prems(2) by auto
  have disj: "address ` set rows \<inter> fst ` set (m @ [(address row, v)]) = {}" for v
    using Cons.prems by auto
  show ?case
    using Cons.prems(1) Cons.IH [OF _ disj]
    by (simp add: mapSet_fresh [OF fresh] shareOf_def Let_def)
qed

lemma shareOf_sum_eligible:
  "sum_list (map (shareOf totalRaw E excluded) rows) =
   sum_list (map (\<lambda>row. bigintDiv (totalRaw * rawBalance row) E) (eligibleRowsOf rows excluded))"
  by (induction rows) (simp_all add: shareOf_def eligibleRowsOf_def)

lemma shareLoop_excluded_zero:
  "toLowerCase a \<in> excluded \<Longrightarrow> a \<in> address ` set rows \<or> mapGet m a = Some 0 \<Longrightarrow>
   mapGet (fst (shareLoop rows totalRaw E excluded m acc)) a = Some 0"
proof (induction rows arbitrary: m acc)
  case Nil
  then show ?case by simp
next
  case (Cons row rows)
  show ?case
  proof (cases "address row = a")
    case True
    then have "mapGet (mapSet m (address row) 0) a = Some 0" by (simp add: mapGet_mapSet)
    then show ?thesis using Cons.prems(1) True Cons.IH [OF Cons.prems(1)] by simp
  next
    case False
    then have keep: "a \<in> address ` set rows \<or> mapGet (mapSet m (address row) v) a = Some 0" for v
      using Cons.prems(2) by (auto simp: mapGet_mapSet)
    show ?thesis using Cons.IH [OF Cons.prems(1) keep] by (simp add: Let_def)
  qed
qed

lemma bigintDiv_nonneg: "0 \<le> a \<Longrightarrow> 0 < b \<Longrightarrow> bigintDiv a b = a div b"
  by (simp add: bigintDiv_def signed_divide_int_def sgn_if)

lemma sum_list_div_le:
  assumes "0 < (E::int)"
  shows "E * sum_list (map (\<lambda>x. f x div E) xs) \<le> sum_list (map f xs)"
proof (induction xs)
  case Nil
  then show ?case by simp
next
  case (Cons x xs)
  have "E * (f x div E) \<le> f x"
    using assms pos_mod_sign [of E "f x"] mult_div_mod_eq [of E "f x"] by linarith
  with Cons show ?case by (simp add: distrib_left)
qed

lemma floor_shares_le_total:
  assumes "0 < (E::int)" and "E = sum_list (map g xs)"
  shows "sum_list (map (\<lambda>x. (t * g x) div E) xs) \<le> t"
proof -
  have "E * sum_list (map (\<lambda>x. (t * g x) div E) xs) \<le> sum_list (map (\<lambda>x. t * g x) xs)"
    using sum_list_div_le [OF assms(1), of "\<lambda>x. t * g x" xs] .
  also have "\<dots> = t * E" by (simp add: assms(2) sum_list_const_mult)
  finally have "E * sum_list (map (\<lambda>x. (t * g x) div E) xs) \<le> E * t" by (simp add: mult.commute)
  then show ?thesis using assms(1) by simp
qed

lemma eligible_shares_floor:
  assumes "\<forall>row\<in>set rows. 0 \<le> rawBalance row" and "0 \<le> totalRaw" and "0 < E"
  shows "map (\<lambda>row. bigintDiv (totalRaw * rawBalance row) E) (eligibleRowsOf rows excluded) =
         map (\<lambda>row. (totalRaw * rawBalance row) div E) (eligibleRowsOf rows excluded)"
  using assms by (simp add: eligibleRowsOf_set bigintDiv_nonneg)

lemma shareLoop_total_le:
  assumes "\<forall>row\<in>set rows. 0 \<le> rawBalance row" and "0 \<le> totalRaw"
    and "0 < eligibleTotalRawOf rows excluded"
  shows "snd (shareLoop rows totalRaw (eligibleTotalRawOf rows excluded) excluded [] 0) =
           (\<Sum>row\<leftarrow>eligibleRowsOf rows excluded.
               (totalRaw * rawBalance row) div eligibleTotalRawOf rows excluded)"
    and "snd (shareLoop rows totalRaw (eligibleTotalRawOf rows excluded) excluded [] 0) \<le> totalRaw"
proof -
  let ?E = "eligibleTotalRawOf rows excluded"
  show eq: "snd (shareLoop rows totalRaw ?E excluded [] 0) =
           (\<Sum>row\<leftarrow>eligibleRowsOf rows excluded. (totalRaw * rawBalance row) div ?E)"
    by (simp only: shareLoop_allocated shareOf_sum_eligible
          eligible_shares_floor [OF assms(1,2,3), of excluded])
  show "snd (shareLoop rows totalRaw ?E excluded [] 0) \<le> totalRaw"
    unfolding eq
    by (rule floor_shares_le_total [OF assms(3)]) (rule eligibleTotalRawOf_sum)
qed

lemma mapGet_rows:
  "distinct (map address rows) \<Longrightarrow> r \<in> set rows \<Longrightarrow>
   mapGet (map (\<lambda>row. (address row, f row)) rows) (address r) = Some (f r)"
  by (induction rows) (auto simp: mapGet_def image_iff)

lemma sumValues_rows: "sumValues (map (\<lambda>row. (address row, f row)) rows) = sum_list (map f rows)"
  by (simp add: sumValues_def comp_def)

lemma allocate_cases:
  "allocate rows totalRaw excluded =
     (if eligibleTotalRawOf rows excluded = 0 then Inl NoEligibleHolders
      else
        let byAddress = fst (shareLoop rows totalRaw (eligibleTotalRawOf rows excluded) excluded [] 0);
            remainder =
              totalRaw - snd (shareLoop rows totalRaw (eligibleTotalRawOf rows excluded) excluded [] 0);
            a = address (hd (eligibleRowsOf rows excluded))
        in if remainder > 0 \<and> eligibleRowsOf rows excluded \<noteq> []
           then Inr (mapSet byAddress a
                       ((case mapGet byAddress a of None \<Rightarrow> 0 | Some v \<Rightarrow> v) + remainder))
           else Inr byAddress)"
  by (simp add: allocate_def Let_def split_beta)

lemmas allocate_eval =
  allocate_def eligibleRowsOf_def eligibleTotalRawOf_def toLowerCase_def toLowerCaseChar_def
  bigintDiv_def signed_divide_int_def mapGet_def Let_def

text \<open>
  Claim C1 (allocation exactness). For rows with pairwise different addresses and raw
  balances that are not negative, an amount \<open>totalRaw \<ge> 0\<close> and any set of excluded
  addresses such that the raw balances of the eligible rows sum to a positive number, the
  allocation succeeds and the values of the map it returns sum to exactly \<open>totalRaw\<close>.
\<close>

theorem allocate_sum_exact:
  assumes "distinct (map address rows)"
    and "\<forall>row\<in>set rows. 0 \<le> rawBalance row"
    and "0 \<le> totalRaw"
    and "0 < (\<Sum>row\<leftarrow>filter (\<lambda>row. toLowerCase (address row) \<notin> excluded) rows. rawBalance row)"
  shows "\<exists>m. allocate rows totalRaw excluded = Inr m \<and> sumValues m = totalRaw"
proof -
  let ?E = "eligibleTotalRawOf rows excluded"
  let ?loop = "shareLoop rows totalRaw ?E excluded [] 0"
  have pos: "0 < ?E"
    using assms(4) by (simp add: eligibleTotalRawOf_sum eligibleRowsOf_def)
  have m0: "fst ?loop = map (\<lambda>row. (address row, shareOf totalRaw ?E excluded row)) rows"
    using shareLoop_distinct [OF assms(1), of "[]"] by simp
  have sum0: "sumValues (fst ?loop) = snd ?loop"
    by (simp add: m0 sumValues_rows shareLoop_allocated)
  have le: "snd ?loop \<le> totalRaw"
    by (rule shareLoop_total_le(2) [OF assms(2,3) pos])
  have ne: "eligibleRowsOf rows excluded \<noteq> []"
    using pos eligible_nonempty [of rows excluded] by simp
  show ?thesis
  proof (cases "0 < totalRaw - snd ?loop")
    case True
    then show ?thesis using pos ne sum0
      by (simp add: allocate_cases Let_def sumValues_mapSet)
  next
    case False
    with le have "snd ?loop = totalRaw" by simp
    then show ?thesis using pos sum0
      by (simp add: allocate_cases Let_def)
  qed
qed

theorem allocate_sum_exact_witness:
  "distinct (map address exampleRows) \<and> list_all (\<lambda>row. 0 \<le> rawBalance row) exampleRows \<and> (0::int) \<le> 10
   \<and> 0 < (\<Sum>row\<leftarrow>filter (\<lambda>row. toLowerCase (address row) \<notin> {''a''}) exampleRows. rawBalance row)
   \<and> (\<exists>m. allocate exampleRows 10 {''a''} = Inr m \<and> sumValues m = 10)"
proof -
  have h1: "distinct (map address exampleRows)" by (simp add: exampleRows_def)
  have h2: "\<forall>row\<in>set exampleRows. 0 \<le> rawBalance row" by (simp add: exampleRows_def)
  have h3: "(0::int) \<le> 10" by simp
  have h4: "0 < (\<Sum>row\<leftarrow>filter (\<lambda>row. toLowerCase (address row) \<notin> {''a''}) exampleRows. rawBalance row)"
    by (simp add: exampleRows_def toLowerCase_def toLowerCaseChar_def)
  show ?thesis using h1 h2 h4 allocate_sum_exact [OF h1 h2 h3 h4] by (simp add: list_all_iff)
qed

text \<open>
  Claim C3 (remainder assignment). Under the same conditions every eligible row gets the
  base share \<open>\<lfloor>totalRaw \<times> rawBalance / eligibleTotalRaw\<rfloor>\<close>, the remainder \<open>totalRaw\<close> minus
  the sum of the base shares is not negative, and the first eligible row in the order of
  the input gets the whole remainder on top of its base share. The rows (A,100), (B,100),
  (C,100) with 10 to distribute and nobody excluded give A 4, B 3 and C 3.
\<close>

theorem allocate_remainder_to_first:
  assumes "distinct (map address rows)"
    and "\<forall>row\<in>set rows. 0 \<le> rawBalance row"
    and "0 \<le> totalRaw"
    and "0 < eligibleTotalRawOf rows excluded"
  shows "(let eligible = eligibleRowsOf rows excluded;
              base = (\<lambda>row. \<lfloor>real_of_int (totalRaw * rawBalance row) /
                               real_of_int (eligibleTotalRawOf rows excluded)\<rfloor>);
              remainder = totalRaw - (\<Sum>row\<leftarrow>eligible. base row)
          in 0 \<le> remainder \<and>
             (\<exists>m. allocate rows totalRaw excluded = Inr m \<and>
                  (\<forall>row\<in>set eligible.
                      mapGet m (address row) =
                        Some (base row + (if row = hd eligible then remainder else 0)))))
         \<and> allocate exampleRows 10 {} = Inr [(''A'', 4), (''B'', 3), (''C'', 3)]"
proof -
  let ?E = "eligibleTotalRawOf rows excluded"
  let ?el = "eligibleRowsOf rows excluded"
  let ?loop = "shareLoop rows totalRaw ?E excluded [] 0"
  let ?base = "\<lambda>row. (totalRaw * rawBalance row) div ?E"
  let ?rem = "totalRaw - (\<Sum>row\<leftarrow>?el. ?base row)"
  have floor_base: "\<lfloor>real_of_int (totalRaw * rawBalance row) / real_of_int ?E\<rfloor> = ?base row" for row
    by (rule floor_divide_of_int_eq)
  have m0: "fst ?loop = map (\<lambda>row. (address row, shareOf totalRaw ?E excluded row)) rows"
    using shareLoop_distinct [OF assms(1), of "[]"] by simp
  have allocated: "snd ?loop = (\<Sum>row\<leftarrow>?el. ?base row)"
    by (rule shareLoop_total_le(1) [OF assms(2,3,4)])
  have rem0: "0 \<le> ?rem"
    using shareLoop_total_le(2) [OF assms(2,3,4)] allocated by simp
  have ne: "?el \<noteq> []"
    using assms(4) eligible_nonempty [of rows excluded] by simp
  have first: "hd ?el \<in> set rows" using hd_eligible [OF ne] by simp
  have get0: "mapGet (fst ?loop) (address row) = Some (?base row)" if "row \<in> set ?el" for row
  proof -
    from that have r: "row \<in> set rows" and e: "toLowerCase (address row) \<notin> excluded"
      by (simp_all add: eligibleRowsOf_set)
    have share: "shareOf totalRaw ?E excluded row = ?base row"
      using e r assms(2,3,4) by (simp add: shareOf_def bigintDiv_nonneg)
    have "mapGet (fst ?loop) (address row) = Some (shareOf totalRaw ?E excluded row)"
      unfolding m0 by (rule mapGet_rows [OF assms(1) r])
    then show ?thesis by (simp only: share)
  qed
  have same: "address row = address (hd ?el) \<longleftrightarrow> row = hd ?el" if "row \<in> set ?el" for row
  proof -
    from that have "row \<in> set rows" by (simp add: eligibleRowsOf_set)
    then show ?thesis
      using first assms(1) by (auto simp: distinct_map inj_on_def)
  qed
  have general: "\<exists>m. allocate rows totalRaw excluded = Inr m \<and>
      (\<forall>row\<in>set ?el. mapGet m (address row) =
          Some (?base row + (if row = hd ?el then ?rem else 0)))"
  proof (cases "0 < ?rem")
    case True
    then have "allocate rows totalRaw excluded =
        Inr (mapSet (fst ?loop) (address (hd ?el)) (?base (hd ?el) + ?rem))"
      using assms(4) ne get0 [of "hd ?el"]
      by (simp add: allocate_cases Let_def allocated)
    then show ?thesis using get0 same by (simp add: mapGet_mapSet)
  next
    case False
    with rem0 have z: "?rem = 0" by simp
    then have "allocate rows totalRaw excluded = Inr (fst ?loop)"
      using assms(4) by (simp add: allocate_cases Let_def allocated)
    then show ?thesis using get0 z by simp
  qed
  have example: "allocate exampleRows 10 {} = Inr [(''A'', 4), (''B'', 3), (''C'', 3)]"
    by (simp add: exampleRows_def allocate_eval)
  show ?thesis
    unfolding Let_def floor_base using rem0 general example by blast
qed

theorem allocate_remainder_to_first_witness:
  "distinct (map address exampleRows) \<and> list_all (\<lambda>row. 0 \<le> rawBalance row) exampleRows \<and> (0::int) \<le> 10
   \<and> 0 < eligibleTotalRawOf exampleRows {}
   \<and> (\<exists>m. allocate exampleRows 10 {} = Inr m \<and> mapGet m ''A'' = Some 4 \<and> mapGet m ''B'' = Some 3)"
proof -
  have h1: "distinct (map address exampleRows)" by (simp add: exampleRows_def)
  have h2: "\<forall>row\<in>set exampleRows. 0 \<le> rawBalance row" by (simp add: exampleRows_def)
  have h3: "(0::int) \<le> 10" by simp
  have total: "eligibleTotalRawOf exampleRows {} = 300"
    by (simp add: exampleRows_def eligibleTotalRawOf_def eligibleRowsOf_def)
  have h4: "0 < eligibleTotalRawOf exampleRows {}" by (simp add: total)
  have el: "eligibleRowsOf exampleRows {} = exampleRows" by (simp add: eligibleRowsOf_def)
  have fl: "\<lfloor>real_of_int (10 * 100) / real_of_int 300\<rfloor> = 3"
    by (simp only: floor_divide_of_int_eq)
  from allocate_remainder_to_first [OF h1 h2 h3 h4]
  have "\<exists>m. allocate exampleRows 10 {} = Inr m \<and> mapGet m ''A'' = Some 4 \<and> mapGet m ''B'' = Some 3"
    unfolding Let_def el total
    by (simp add: exampleRows_def fl mapGet_def)
  with h1 h2 h4 show ?thesis by (simp add: list_all_iff)
qed

text \<open>
  Claim C4 (no eligible holders). The allocation fails with \<open>NoEligibleHolders\<close> exactly
  when the raw balances of the eligible rows sum to zero; otherwise it returns a map. In
  particular it fails when the only holder is excluded.
\<close>

theorem allocate_NoEligibleHolders_iff:
  "(allocate rows totalRaw excluded = Inl NoEligibleHolders \<longleftrightarrow>
      (\<Sum>row\<leftarrow>filter (\<lambda>row. toLowerCase (address row) \<notin> excluded) rows. rawBalance row) = 0)
   \<and> ((\<Sum>row\<leftarrow>filter (\<lambda>row. toLowerCase (address row) \<notin> excluded) rows. rawBalance row) \<noteq> 0
        \<longrightarrow> (\<exists>m. allocate rows totalRaw excluded = Inr m))
   \<and> (toLowerCase a \<in> excluded \<longrightarrow>
        allocate [\<lparr>address = a, rawBalance = b\<rparr>] totalRaw excluded = Inl NoEligibleHolders)"
proof -
  have total: "eligibleTotalRawOf rows excluded =
      (\<Sum>row\<leftarrow>filter (\<lambda>row. toLowerCase (address row) \<notin> excluded) rows. rawBalance row)"
    by (simp add: eligibleTotalRawOf_sum eligibleRowsOf_def)
  have one: "toLowerCase a \<in> excluded \<Longrightarrow>
      eligibleTotalRawOf [\<lparr>address = a, rawBalance = b\<rparr>] excluded = 0"
    by (simp add: eligibleTotalRawOf_def eligibleRowsOf_def)
  show ?thesis
    using one by (simp add: allocate_cases total [symmetric] Let_def)
qed

theorem allocate_NoEligibleHolders_iff_witness:
  "allocate [\<lparr>address = ''0xA'', rawBalance = 7\<rparr>] 10 {''0xa''} = Inl NoEligibleHolders
   \<and> (\<exists>m. allocate [\<lparr>address = ''0xA'', rawBalance = 7\<rparr>] 10 {} = Inr m)"
  using allocate_NoEligibleHolders_iff [of "[\<lparr>address = ''0xA'', rawBalance = 7\<rparr>]" 10 "{''0xa''}" "''0xA''" 7]
    allocate_NoEligibleHolders_iff [of "[\<lparr>address = ''0xA'', rawBalance = 7\<rparr>]" 10 "{}" "''0xA''" 7]
  by (simp add: toLowerCase_def toLowerCaseChar_def)

text \<open>
  Claim C8 (excluded rows get zero). The set of excluded addresses holds lower-case texts
  (lemma \<open>parseCliArgs_excluded_lower\<close>), and a row is excluded when its address in lower
  case is in the set: the match ignores the case of the letters (lemma
  \<open>excluded_match_iff\<close>). In a successful allocation every such row is mapped to 0, and the
  address that receives the remainder, that of the first eligible row, is never the
  address of an excluded row.
\<close>

theorem allocate_excluded_zero:
  assumes "allocate rows totalRaw excluded = Inr m"
    and "row \<in> set rows"
    and "toLowerCase (address row) \<in> excluded"
  shows "mapGet m (address row) = Some 0 \<and>
         (eligibleRowsOf rows excluded \<noteq> [] \<longrightarrow>
            address (hd (eligibleRowsOf rows excluded)) \<noteq> address row)"
proof -
  let ?E = "eligibleTotalRawOf rows excluded"
  let ?m0 = "fst (shareLoop rows totalRaw ?E excluded [] 0)"
  have zero: "mapGet ?m0 (address row) = Some 0"
    using shareLoop_excluded_zero [OF assms(3), of rows "[]"] assms(2) by simp
  have other: "eligibleRowsOf rows excluded \<noteq> [] \<Longrightarrow>
      address (hd (eligibleRowsOf rows excluded)) \<noteq> address row"
    using hd_eligible [of rows excluded] assms(3) by auto
  have "mapGet m (address row) = Some 0"
    using assms(1) zero other
    by (auto simp: allocate_cases Let_def mapGet_mapSet split: if_splits)
  then show ?thesis using other by simp
qed

theorem allocate_excluded_zero_witness:
  "allocate exampleRows 10 {''a''} = Inr [(''A'', 0), (''B'', 5), (''C'', 5)]
   \<and> \<lparr>address = ''A'', rawBalance = 100\<rparr> \<in> set exampleRows
   \<and> toLowerCase ''A'' \<in> {''a''}
   \<and> mapGet [(''A'', 0::int), (''B'', 5), (''C'', 5)] ''A'' = Some 0
   \<and> address (hd (eligibleRowsOf exampleRows {''a''})) = ''B''"
proof -
  have h1: "allocate exampleRows 10 {''a''} = Inr [(''A'', 0), (''B'', 5), (''C'', 5)]"
    by (simp add: exampleRows_def allocate_eval)
  have h2: "\<lparr>address = ''A'', rawBalance = 100\<rparr> \<in> set exampleRows" by (simp add: exampleRows_def)
  have h3: "toLowerCase (address \<lparr>address = ''A'', rawBalance = 100\<rparr>) \<in> {''a''}"
    by (simp add: toLowerCase_def toLowerCaseChar_def)
  have h4: "address (hd (eligibleRowsOf exampleRows {''a''})) = ''B''"
    by (simp add: exampleRows_def eligibleRowsOf_def toLowerCase_def toLowerCaseChar_def)
  from allocate_excluded_zero [OF h1 h2 h3] h1 h2 h3 h4 show ?thesis by simp
qed

section \<open>Properties of the aggregation\<close>

lemma addNodes_distinct:
  "addNodes ns balances = Inr balances' \<Longrightarrow> distinct (map fst balances) \<Longrightarrow>
   distinct (map fst balances')"
  by (induction ns balances rule: addNodes.induct)
     (auto simp: distinct_mapSet split: option.splits)

lemma aggregate_distinct:
  "aggregate fetches cursor balances = Some (Inr balances') \<Longrightarrow> distinct (map fst balances) \<Longrightarrow>
   distinct (map fst balances')"
proof (induction fetches arbitrary: cursor balances)
  case Nil
  then show ?case by simp
next
  case (Cons fetch later)
  from Cons.prems(1) obtain conn b1 where
    conn: "fetch cursor = Payload (Some conn)"
    and b1: "addNodes (case nodes conn of None \<Rightarrow> [] | Some ns \<Rightarrow> ns) balances = Inr b1"
    by (auto split: response.splits option.splits sum.splits)
  have d1: "distinct (map fst b1)" by (rule addNodes_distinct [OF b1 Cons.prems(2)])
  from Cons.prems(1) conn b1
  have "balances' = b1 \<or> (\<exists>c. aggregate later c b1 = Some (Inr balances'))"
    by (auto split: option.splits if_splits)
  then show ?case using d1 Cons.IH by blast
qed

lemma holderRows_distinct:
  assumes "distinct (map fst balances)"
  shows "distinct (map address (holderRows balances))"
proof -
  let ?rows = "map (\<lambda>(a, b). \<lparr>address = a, rawBalance = b\<rparr>) balances"
  have m: "map address ?rows = map fst balances" by (induction balances) auto
  have "distinct (map address ?rows)" using assms by (simp only: m)
  then have "distinct ?rows \<and> inj_on address (set ?rows)" by (simp only: distinct_map)
  then have "distinct (sort_key (\<lambda>row. - rawBalance row) ?rows) \<and>
      inj_on address (set (sort_key (\<lambda>row. - rawBalance row) ?rows))"
    by simp
  then show ?thesis unfolding holderRows_def by (simp only: distinct_map)
qed

lemma ownerTotal_Nil: "ownerTotal a [] = 0"
  by (simp add: ownerTotal_def)

lemma ownerTotal_Cons:
  "ownerTotal a ((k, b) # entries) = (if k = a then b else 0) + ownerTotal a entries"
  by (simp add: ownerTotal_def)

lemma ownerTotal_append: "ownerTotal a (xs @ ys) = ownerTotal a xs + ownerTotal a ys"
  by (simp add: ownerTotal_def)

lemma ownerTotal_absent: "a \<notin> fst ` set entries \<Longrightarrow> ownerTotal a entries = 0"
  by (induction entries) (auto simp: ownerTotal_def)

lemma addNodes_entries:
  "\<exists>m. addNodes (map (\<lambda>(a, b). entry a b) entries) balances = Inr m \<and>
       (\<forall>a. mapGet m a =
          (if a \<in> fst ` set entries then Some (balanceOr0 balances a + ownerTotal a entries)
           else mapGet balances a))"
proof (induction entries arbitrary: balances)
  case Nil
  then show ?case by simp
next
  case (Cons e entries)
  obtain a b where e: "e = (a, b)" by (cases e)
  let ?b1 = "mapSet balances a (balanceOr0 balances a + b)"
  from Cons.IH [of ?b1] obtain m where
    m: "addNodes (map (\<lambda>(a, b). entry a b) entries) ?b1 = Inr m"
    and get: "\<And>k. mapGet m k =
          (if k \<in> fst ` set entries then Some (balanceOr0 ?b1 k + ownerTotal k entries)
           else mapGet ?b1 k)"
    by blast
  have step: "addNodes (map (\<lambda>(a, b). entry a b) (e # entries)) balances = Inr m"
    using m by (simp add: e entry_def balanceOr0_def)
  have "mapGet m k =
          (if k \<in> fst ` set (e # entries)
           then Some (balanceOr0 balances k + ownerTotal k (e # entries))
           else mapGet balances k)" for k
    by (simp add: get e balanceOr0_mapSet ownerTotal_Cons ownerTotal_absent)
      (simp add: balanceOr0_def mapGet_mapSet)
  with step show ?case by blast
qed

lemma aggregate_pages:
  "\<exists>m. aggregate (map (\<lambda>(es, c). page es True c) ps @ [page es False c']) cursor balances
          = Some (Inr m) \<and>
       (\<forall>a. mapGet m a =
          (if a \<in> fst ` set (concat (map fst ps) @ es)
           then Some (balanceOr0 balances a + ownerTotal a (concat (map fst ps) @ es))
           else mapGet balances a))"
proof (induction ps arbitrary: cursor balances)
  case Nil
  from addNodes_entries [of es balances] show ?case
    by (auto simp: page_def)
next
  case (Cons p ps)
  obtain es1 c1 where p: "p = (es1, c1)" by (cases p)
  from addNodes_entries [of es1 balances] obtain m1 where
    m1: "addNodes (map (\<lambda>(a, b). entry a b) es1) balances = Inr m1"
    and get1: "\<And>a. mapGet m1 a =
          (if a \<in> fst ` set es1 then Some (balanceOr0 balances a + ownerTotal a es1)
           else mapGet balances a)"
    by blast
  from Cons.IH [of c1 m1] obtain m where
    m: "aggregate (map (\<lambda>(es, c). page es True c) ps @ [page es False c']) c1 m1 = Some (Inr m)"
    and get: "\<And>a. mapGet m a =
          (if a \<in> fst ` set (concat (map fst ps) @ es)
           then Some (balanceOr0 m1 a + ownerTotal a (concat (map fst ps) @ es))
           else mapGet m1 a)"
    by blast
  have step: "aggregate (map (\<lambda>(es, c). page es True c) (p # ps) @ [page es False c']) cursor balances
      = Some (Inr m)"
    using m m1 by (simp add: p page_def)
  have "mapGet m a =
          (if a \<in> fst ` set (concat (map fst (p # ps)) @ es)
           then Some (balanceOr0 balances a + ownerTotal a (concat (map fst (p # ps)) @ es))
           else mapGet balances a)" for a
    by (simp add: get p ownerTotal_append ownerTotal_absent balanceOr0_def get1 image_Un)
  with step show ?case by blast
qed

text \<open>
  Claim C6 (aggregation adds up per owner). After a run over any pages of well-formed
  entries, the first ones announcing a next page and the last one not, the balance map
  holds for every owner the sum of the raw balances of all its entries, and no other
  owner. Hence an owner's balance split over two pages gives the same totals as one entry
  with the sum. The pages [(A,100), (B,50)] and [(A,25)] give the map A 125, B 50.
\<close>

theorem aggregate_adds_per_owner:
  "(\<exists>m. aggregate (map (\<lambda>(es, c). page es True c) ps @ [page es False c']) None [] = Some (Inr m) \<and>
        (\<forall>a. mapGet m a =
           (if a \<in> fst ` set (concat (map fst ps) @ es)
            then Some (ownerTotal a (concat (map fst ps) @ es)) else None)))
   \<and> (\<exists>m1 m2.
         aggregate [page (pre @ [(a, x)]) True c, page ((a, y) # post) False c'] None [] = Some (Inr m1) \<and>
         aggregate [page (pre @ [(a, x + y)] @ post) False c'] None [] = Some (Inr m2) \<and>
         (\<forall>k. mapGet m1 k = mapGet m2 k))
   \<and> aggregate [page [(''A'', 100), (''B'', 50)] True (Some ''c1''), page [(''A'', 25)] False None] None []
       = Some (Inr [(''A'', 125), (''B'', 50)])"
proof -
  have general: "\<exists>m. aggregate (map (\<lambda>(es, c). page es True c) ps @ [page es False c']) None [] = Some (Inr m) \<and>
        (\<forall>a. mapGet m a =
           (if a \<in> fst ` set (concat (map fst ps) @ es)
            then Some (ownerTotal a (concat (map fst ps) @ es)) else None))"
    using aggregate_pages [of ps es c' None "[]"]
    unfolding balanceOr0_empty mapGet_empty add_0 .
  from aggregate_pages [of "[(pre @ [(a, x)], c)]" "(a, y) # post" c' None "[]"]
  obtain m1 where
    m1: "aggregate [page (pre @ [(a, x)]) True c, page ((a, y) # post) False c'] None [] = Some (Inr m1)"
    and get1: "\<And>k. mapGet m1 k =
      (if k \<in> fst ` set (pre @ [(a, x)] @ (a, y) # post)
       then Some (ownerTotal k (pre @ [(a, x)] @ (a, y) # post)) else None)"
    unfolding balanceOr0_empty mapGet_empty by auto
  from aggregate_pages [of "[]" "pre @ [(a, x + y)] @ post" c' None "[]"]
  obtain m2 where
    m2: "aggregate [page (pre @ [(a, x + y)] @ post) False c'] None [] = Some (Inr m2)"
    and get2: "\<And>k. mapGet m2 k =
      (if k \<in> fst ` set (pre @ [(a, x + y)] @ post)
       then Some (ownerTotal k (pre @ [(a, x + y)] @ post)) else None)"
    unfolding balanceOr0_empty mapGet_empty by auto
  have "mapGet m1 k = mapGet m2 k" for k
    by (simp add: get1 get2 ownerTotal_append ownerTotal_Cons image_Un)
  with m1 m2 have splitting: "\<exists>m1 m2.
         aggregate [page (pre @ [(a, x)]) True c, page ((a, y) # post) False c'] None [] = Some (Inr m1) \<and>
         aggregate [page (pre @ [(a, x + y)] @ post) False c'] None [] = Some (Inr m2) \<and>
         (\<forall>k. mapGet m1 k = mapGet m2 k)"
    by blast
  have scenario: "aggregate [page [(''A'', 100), (''B'', 50)] True (Some ''c1''), page [(''A'', 25)] False None] None []
       = Some (Inr [(''A'', 125), (''B'', 50)])"
    by (simp add: page_def entry_def mapGet_def)
  from general splitting scenario show ?thesis by blast
qed

theorem aggregate_adds_per_owner_witness:
  "\<exists>m. aggregate [page [(''A'', 100), (''B'', 50)] True (Some ''c1''), page [(''A'', 25)] False None] None []
          = Some (Inr m) \<and> mapGet m ''A'' = Some 125 \<and> mapGet m ''C'' = None"
proof -
  from aggregate_adds_per_owner
         [where ps = "[([(''A'', 100), (''B'', 50)], Some ''c1'')]" and es = "[(''A'', 25)]"
            and c' = None, THEN conjunct1]
  obtain m where
    run: "aggregate (map (\<lambda>(es, c). page es True c) [([(''A'', 100), (''B'', 50)], Some ''c1'')]
                     @ [page [(''A'', 25)] False None]) None [] = Some (Inr m)"
    and get: "\<And>a. mapGet m a =
       (if a \<in> fst ` set (concat (map fst [([(''A'', 100::int), (''B'', 50)], Some ''c1'')]) @ [(''A'', 25)])
        then Some (ownerTotal a (concat (map fst [([(''A'', 100), (''B'', 50)], Some ''c1'')]) @ [(''A'', 25)]))
        else None)"
    by blast
  have "mapGet m ''A'' = Some 125" and "mapGet m ''C'' = None"
    by (simp_all add: get ownerTotal_def)
  with run show ?thesis by simp
qed

text \<open>
  Claim C10 (a page without a node list). A page that has the connection object but no
  node list raises no error and leaves the balances as they are: the loop goes on with the
  next request when the page announces a next page and returns the balances otherwise. A
  page without the connection object gives \<open>MalformedResponse\<close>, and that error has no
  other origin.
\<close>

theorem aggregate_missing_nodes:
  "(fetch cursor = Payload (Some \<lparr>nodes = None, pageInfo = info\<rparr>) \<longrightarrow>
      aggregate (fetch # later) cursor balances =
        (case info of
           None \<Rightarrow> Some (Inr balances)
         | Some i \<Rightarrow> if hasNextPage i then aggregate later (endCursor i) balances
                     else Some (Inr balances)))
   \<and> (fetch cursor = Payload None \<longrightarrow>
        aggregate (fetch # later) cursor balances = Some (Inl MalformedResponse))
   \<and> (aggregate fetches cursor balances = Some (Inl MalformedResponse) \<longrightarrow>
        (\<exists>f\<in>set fetches. \<exists>c. f c = Payload None))"
proof -
  have addNodes_ok: "addNodes ns b \<noteq> Inl MalformedResponse" for ns b
    by (induction ns b rule: addNodes.induct) (auto split: option.splits)
  have only: "aggregate fetches cursor balances = Some (Inl MalformedResponse) \<Longrightarrow>
      \<exists>f\<in>set fetches. \<exists>c. f c = Payload None"
  proof (induction fetches arbitrary: cursor balances)
    case Nil
    then show ?case by simp
  next
    case (Cons f fs)
    show ?case
    proof (cases "f cursor = Payload None")
      case True
      then show ?thesis by auto
    next
      case False
      with Cons.prems addNodes_ok have "\<exists>c b. aggregate fs c b = Some (Inl MalformedResponse)"
        by (auto split: response.splits option.splits sum.splits if_splits)
      with Cons.IH show ?thesis by auto
    qed
  qed
  show ?thesis using only by (auto split: option.splits)
qed

theorem aggregate_missing_nodes_witness:
  "aggregate [\<lambda>c. Payload (Some \<lparr>nodes = None, pageInfo = Some \<lparr>hasNextPage = True, endCursor = Some ''c1''\<rparr>\<rparr>),
              page [(''A'', 25)] False None] None [(''B'', 1)]
     = Some (Inr [(''B'', 1), (''A'', 25)])
   \<and> aggregate [\<lambda>c. Payload None] None [(''B'', 1)] = Some (Inl MalformedResponse)"
  using aggregate_missing_nodes
    [of "\<lambda>c. Payload (Some \<lparr>nodes = None, pageInfo = Some \<lparr>hasNextPage = True, endCursor = Some ''c1''\<rparr>\<rparr>)"
        None "Some \<lparr>hasNextPage = True, endCursor = Some ''c1''\<rparr>" "[page [(''A'', 25)] False None]"
        "[(''B'', 1)]"]
    aggregate_missing_nodes [of "\<lambda>c. Payload None" None None "[]" "[(''B'', 1)]"]
  by (simp add: page_def entry_def mapGet_def)

end
